theory Spec2Isabelle
  imports Main
begin

section \<open>Header-based segmentation of a parsed HTML tree\<close>

text \<open>
  A shallow embedding of \<^verbatim>\<open>split_text_from_file\<close> and \<^verbatim>\<open>split_html\<close> of
  \<^verbatim>\<open>split_html_on_headers.py\<close>. The segmenter is modelled on the tree that
  \<^verbatim>\<open>BeautifulSoup(html_content, 'html.parser')\<close> has built; the navigation
  methods of the library that the source calls (\<^verbatim>\<open>find_all\<close>,
  \<^verbatim>\<open>find_all_previous\<close>, \<^verbatim>\<open>find_next_siblings\<close>, \<^verbatim>\<open>get_text\<close>) are
  modelled on that tree.
\<close>

subsection \<open>Strings\<close>

text \<open>
  A Python \<^verbatim>\<open>str\<close> is a sequence of Unicode code points. \<open>u\<close> writes an ASCII
  literal as such a sequence.
\<close>

type_synonym pystr = "nat list"

abbreviation u :: "string \<Rightarrow> pystr" where
  "u s \<equiv> map of_char s"

text \<open>
  The code points that \<^verbatim>\<open>str.strip()\<close> removes, which are those of
  \<^verbatim>\<open>str.isspace\<close>: tab to carriage return, the separators 0x1C to 0x1F, the space,
  U+0085, U+00A0, U+1680, U+2000 to U+200A, U+2028, U+2029, U+202F, U+205F and U+3000.
\<close>

definition isspace :: "nat \<Rightarrow> bool" where
  "isspace c =
     (c \<in> {0x09, 0x0A, 0x0B, 0x0C, 0x0D, 0x1C, 0x1D, 0x1E, 0x1F, 0x20, 0x85, 0xA0, 0x1680}
      \<or> (0x2000 \<le> c \<and> c \<le> 0x200A)
      \<or> c \<in> {0x2028, 0x2029, 0x202F, 0x205F, 0x3000})"

definition strip :: "pystr \<Rightarrow> pystr" where
  "strip s = rev (dropWhile isspace (rev (dropWhile isspace s)))"

text \<open>\<^verbatim>\<open>separator.join(strings)\<close>.\<close>

fun join :: "pystr \<Rightarrow> pystr list \<Rightarrow> pystr" where
  "join sep [] = []"
| "join sep [x] = x"
| "join sep (x # y # ys) = x @ sep @ join sep (y # ys)"

subsection \<open>The parsed tree\<close>

text \<open>
  The class of a text node. The parser gives the class \<^verbatim>\<open>NavigableString\<close> itself
  (\<open>PlainString\<close> here) to ordinary text and a subclass to the text inside a
  \<^verbatim>\<open>script\<close>, \<^verbatim>\<open>style\<close>, \<^verbatim>\<open>template\<close>, \<^verbatim>\<open>rt\<close> or \<^verbatim>\<open>rp\<close> tag, to a
  CDATA section, a comment, a declaration, a doctype and a processing instruction.
\<close>

datatype string_class =
    PlainString
  | CData
  | Script
  | Stylesheet
  | TemplateString
  | RubyTextString
  | RubyParenthesisString
  | Comment
  | Declaration
  | Doctype
  | ProcessingInstruction

text \<open>
  An element of the tree is a text node, with its class and its characters, or a
  \<^verbatim>\<open>bs4.Tag\<close> with its \<^verbatim>\<open>name\<close> and its \<^verbatim>\<open>contents\<close>. The
  \<^verbatim>\<open>BeautifulSoup\<close> object itself is given by its contents, a list of nodes.
  Attributes play no part in the segmenter.
\<close>

datatype node = NavigableString string_class pystr | Tag pystr "node list"

fun is_Tag :: "node \<Rightarrow> bool" where
  "is_Tag (Tag n cs) = True"
| "is_Tag (NavigableString cls s) = False"

text \<open>
  \<^verbatim>\<open>tag.descendants\<close>: the elements below a tag in document order, which is the
  order of the \<^verbatim>\<open>next_element\<close> chain the parser builds.
\<close>

fun descendants :: "node \<Rightarrow> node list"
  and subtrees :: "node list \<Rightarrow> node list" where
  "descendants (NavigableString cls s) = []"
| "descendants (Tag n cs) = subtrees cs"
| "subtrees [] = []"
| "subtrees (c # cs) = c # descendants c @ subtrees cs"

text \<open>
  \<^verbatim>\<open>tag.interesting_string_types\<close>: the classes of text that \<^verbatim>\<open>get_text\<close> of a
  tag returns, set from the tag's name (the builder's \<^verbatim>\<open>string_containers\<close>). The
  test is on the exact class.
\<close>

definition DEFAULT_INTERESTING_STRING_TYPES :: "string_class list" where
  "DEFAULT_INTERESTING_STRING_TYPES = [PlainString, CData]"

definition interesting_string_types :: "pystr \<Rightarrow> string_class list" where
  "interesting_string_types name =
     (if name = u ''rt'' then [RubyTextString]
      else if name = u ''rp'' then [RubyParenthesisString]
      else if name = u ''style'' then [Stylesheet]
      else if name = u ''script'' then [Script]
      else if name = u ''template'' then [TemplateString]
      else DEFAULT_INTERESTING_STRING_TYPES)"

text \<open>
  \<^verbatim>\<open>_all_strings(strip=True)\<close>: the text nodes of the given classes among the given
  elements, each stripped, the empty ones skipped.
\<close>

fun stripped_strings :: "string_class list \<Rightarrow> node list \<Rightarrow> pystr list" where
  "stripped_strings types [] = []"
| "stripped_strings types (NavigableString cls s # es) =
     (if cls \<notin> set types then stripped_strings types es
      else if strip s = [] then stripped_strings types es
      else strip s # stripped_strings types es)"
| "stripped_strings types (Tag n cs # es) = stripped_strings types es"

text \<open>\<^verbatim>\<open>elem.get_text(separator=' ', strip=True)\<close>, on an element and on the soup.\<close>

fun get_text :: "node \<Rightarrow> pystr" where
  "get_text (Tag n cs) =
     join (u '' '') (stripped_strings (interesting_string_types n) (subtrees cs))"
| "get_text (NavigableString cls s) =
     join (u '' '') (stripped_strings DEFAULT_INTERESTING_STRING_TYPES [NavigableString cls s])"

definition get_text_soup :: "node list \<Rightarrow> pystr" where
  "get_text_soup soup =
     join (u '' '') (stripped_strings DEFAULT_INTERESTING_STRING_TYPES (subtrees soup))"

text \<open>
  An element as the library hands it out: the node together with the links the parser has
  set on it, read through the generators \<^verbatim>\<open>next_siblings\<close> (the later entries of the
  parent's contents) and \<^verbatim>\<open>previous_elements\<close> (everything parsed before the
  element, the most recent first; an enclosing tag is parsed before what it contains).
\<close>

record element =
  elem :: node
  next_siblings :: "node list"
  previous_elements :: "node list"

text \<open>
  The elements of a contents list in document order, each with its links. \<open>prev\<close> is
  the chain of elements parsed before the first entry of the list.
\<close>

fun walk :: "node list \<Rightarrow> node list \<Rightarrow> element list" where
  "walk prev [] = []"
| "walk prev (NavigableString cls s # cs) =
     \<lparr>elem = NavigableString cls s, next_siblings = cs, previous_elements = prev\<rparr>
       # walk (NavigableString cls s # prev) cs"
| "walk prev (Tag n ch # cs) =
     \<lparr>elem = Tag n ch, next_siblings = cs, previous_elements = prev\<rparr>
       # walk (Tag n ch # prev) ch
       @ walk (rev (subtrees [Tag n ch]) @ prev) cs"

text \<open>
  The first element the parser creates has no previous element: the soup object is not
  part of the chain.
\<close>

definition soup_elements :: "node list \<Rightarrow> element list" where
  "soup_elements soup = walk [] soup"

definition element_descendants :: "element \<Rightarrow> element list" where
  "element_descendants e =
     (case elem e of
        Tag n ch \<Rightarrow> walk (elem e # previous_elements e) ch
      | NavigableString cls s \<Rightarrow> [])"

fun has_name :: "pystr list \<Rightarrow> node \<Rightarrow> bool" where
  "has_name names (Tag n cs) = (n \<in> set names)"
| "has_name names (NavigableString cls s) = False"

text \<open>\<^verbatim>\<open>soup.body\<close>: the first tag named body in document order, or None.\<close>

definition soup_body :: "node list \<Rightarrow> element option" where
  "soup_body soup = find (\<lambda>e. has_name [u ''body''] (elem e)) (soup_elements soup)"

text \<open>\<^verbatim>\<open>find_all(names)\<close> over a list of elements: the tags with one of the names.\<close>

definition find_all :: "pystr list \<Rightarrow> element list \<Rightarrow> element list" where
  "find_all names es = filter (\<lambda>e. has_name names (elem e)) es"

text \<open>\<^verbatim>\<open>find_all_previous()\<close> and \<^verbatim>\<open>find_next_siblings()\<close> return tags only.\<close>

definition find_all_previous :: "element \<Rightarrow> node list" where
  "find_all_previous e = filter is_Tag (previous_elements e)"

definition find_next_siblings :: "element \<Rightarrow> node list" where
  "find_next_siblings e = filter is_Tag (next_siblings e)"

subsection \<open>The segmenter\<close>

datatype py_error = KeyError | AttributeError

record document =
  page_content :: pystr
  metadata :: "pystr \<rightharpoonup> pystr"

text \<open>The module's constant.\<close>

definition HEADERS_TO_SPLIT_ON :: "(pystr \<times> pystr) list" where
  "HEADERS_TO_SPLIT_ON =
     [(u ''h1'', u ''Header 1''), (u ''h2'', u ''Header 2''), (u ''h3'', u ''Header 3'')]"

text \<open>
  The functions below read the module's global \<^verbatim>\<open>HEADERS_TO_SPLIT_ON\<close>; the model
  passes it as the parameter \<open>hts\<close>. \<^verbatim>\<open>dict(pairs)\<close> keeps the last value of a
  repeated key.
\<close>

definition headers_to_split_on :: "(pystr \<times> pystr) list \<Rightarrow> pystr list" where
  "headers_to_split_on hts = map fst hts"

definition header_mapping :: "(pystr \<times> pystr) list \<Rightarrow> pystr \<rightharpoonup> pystr" where
  "header_mapping hts = map_of (rev hts)"

text \<open>
  Lines 175 to 180: the loop over \<^verbatim>\<open>first_header.find_all_previous()\<close>, each text
  put in front of what has been collected.
\<close>

fun pre_header_loop :: "pystr \<Rightarrow> node list \<Rightarrow> pystr" where
  "pre_header_loop pre_header_content [] = pre_header_content"
| "pre_header_loop pre_header_content (e # es) =
     (if is_Tag e then
        (let text = get_text e in
         if text \<noteq> [] then pre_header_loop (text @ u '' '' @ pre_header_content) es
         else pre_header_loop pre_header_content es)
      else pre_header_loop pre_header_content es)"

text \<open>
  Lines 204 to 210: the loop over \<^verbatim>\<open>header.find_next_siblings()\<close> with its
  \<^verbatim>\<open>break\<close>. The library returns tags only; a text node, which has no name, is
  skipped.
\<close>

fun content_elements :: "pystr list \<Rightarrow> node list \<Rightarrow> node list" where
  "content_elements names [] = []"
| "content_elements names (Tag n cs # siblings) =
     (if n \<in> set names then [] else Tag n cs # content_elements names siblings)"
| "content_elements names (NavigableString cls s # siblings) = content_elements names siblings"

text \<open>Lines 213 to 217.\<close>

fun content_loop :: "pystr \<Rightarrow> node list \<Rightarrow> pystr" where
  "content_loop current_content [] = current_content"
| "content_loop current_content (e # es) =
     (let text = get_text e in
      if text \<noteq> [] then content_loop (current_content @ text @ u '' '') es
      else content_loop current_content es)"

text \<open>Lines 198 to 230: the body of the loop over the headers, for one header.\<close>

definition header_document :: "(pystr \<times> pystr) list \<Rightarrow> element \<Rightarrow> py_error + document" where
  "header_document hts header =
     (case elem header of
        NavigableString cls s \<Rightarrow> Inl AttributeError
      | Tag header_name cs \<Rightarrow>
          (let header_text = get_text (elem header) in
           case header_mapping hts header_name of
             None \<Rightarrow> Inl KeyError
           | Some label \<Rightarrow>
               (let current_metadata = Map.empty(label \<mapsto> header_text);
                    current_content =
                      content_loop []
                        (content_elements (headers_to_split_on hts) (find_next_siblings header))
                in if strip current_content \<noteq> []
                   then Inr \<lparr>page_content = strip current_content, metadata = current_metadata\<rparr>
                   else Inr \<lparr>page_content = [], metadata = current_metadata\<rparr>)))"

fun header_loop ::
  "(pystr \<times> pystr) list \<Rightarrow> document list \<Rightarrow> element list \<Rightarrow> py_error + document list" where
  "header_loop hts documents [] = Inr documents"
| "header_loop hts documents (header # headers) =
     (case header_document hts header of
        Inl e \<Rightarrow> Inl e
      | Inr d \<Rightarrow> header_loop hts (documents @ [d]) headers)"

text \<open>\<^verbatim>\<open>body = soup.body if soup.body else soup\<close>, then \<^verbatim>\<open>body.find_all(...)\<close>.\<close>

definition all_headers :: "(pystr \<times> pystr) list \<Rightarrow> node list \<Rightarrow> element list" where
  "all_headers hts soup =
     find_all (headers_to_split_on hts)
       (case soup_body soup of
          Some body \<Rightarrow> element_descendants body
        | None \<Rightarrow> soup_elements soup)"

definition body_get_text :: "node list \<Rightarrow> pystr" where
  "body_get_text soup =
     (case soup_body soup of
        Some body \<Rightarrow> get_text (elem body)
      | None \<Rightarrow> get_text_soup soup)"

text \<open>Lines 160 to 232, on the parsed tree.\<close>

definition split_text_from_file ::
  "(pystr \<times> pystr) list \<Rightarrow> node list \<Rightarrow> py_error + document list" where
  "split_text_from_file hts soup =
     (case all_headers hts soup of
        first_header # rest \<Rightarrow>
          (let pre_header_content = pre_header_loop [] (find_all_previous first_header);
               documents =
                 (if strip pre_header_content \<noteq> []
                  then [\<lparr>page_content = strip pre_header_content, metadata = Map.empty\<rparr>]
                  else [])
           in header_loop hts documents (first_header # rest))
      | [] \<Rightarrow>
          (let full_text = body_get_text soup
           in if strip full_text \<noteq> []
              then Inr [\<lparr>page_content = strip full_text, metadata = Map.empty\<rparr>]
              else Inr []))"

subsection \<open>The pipeline entry point\<close>

text \<open>
  What \<^verbatim>\<open>split_html\<close> can raise: \<^verbatim>\<open>FileNotFoundError\<close>, any other instance of
  \<^verbatim>\<open>Exception\<close> (with its message), or a \<^verbatim>\<open>BaseException\<close> that is not an
  \<^verbatim>\<open>Exception\<close> (\<^verbatim>\<open>KeyboardInterrupt\<close>, \<^verbatim>\<open>SystemExit\<close>).
\<close>

datatype exn = FileNotFoundError | OtherException pystr | NotAnException pystr

fun isinstance_Exception :: "exn \<Rightarrow> bool" where
  "isinstance_Exception FileNotFoundError = True"
| "isinstance_Exception (OtherException msg) = True"
| "isinstance_Exception (NotAnException msg) = False"

text \<open>
  The world outside the program: each operation on it returns its value or the exception
  it raises. \<open>html_parser\<close> is \<^verbatim>\<open>BeautifulSoup(markup, 'html.parser')\<close>,
  \<open>find_section\<close> is \<^verbatim>\<open>str(soup.find(target_tag, class_=target_class))\<close> on the
  parsed markup (None when nothing matches), \<open>rich_print\<close> and
  \<open>rich_print_metadata\<close> are \<^verbatim>\<open>rich.print\<close> on a string and on a metadata dict
  (it raises on text that is not well-formed markup), \<open>user_input\<close> answers the k-th
  prompt, \<open>str_metadata\<close> is \<^verbatim>\<open>str\<close> on a metadata dict.
\<close>

record env =
  read_text :: "pystr \<Rightarrow> exn + pystr"
  html_parser :: "pystr \<Rightarrow> node list"
  find_section :: "pystr \<Rightarrow> pystr \<Rightarrow> pystr \<Rightarrow> pystr option"
  pickle_dump :: "pystr \<Rightarrow> document list \<Rightarrow> exn + unit"
  write_text :: "pystr \<Rightarrow> pystr \<Rightarrow> exn + unit"
  rich_print :: "pystr \<Rightarrow> exn + unit"
  rich_print_metadata :: "(pystr \<rightharpoonup> pystr) \<Rightarrow> exn + unit"
  user_input :: "nat \<Rightarrow> exn + pystr"
  str_metadata :: "(pystr \<rightharpoonup> pystr) \<Rightarrow> pystr"

text \<open>What a run does that can be seen from outside, in the order it happens.\<close>

datatype event =
    Log_info pystr
  | Log_warning pystr
  | Log_error pystr
  | Dumped pystr "document list"
  | Written pystr pystr
  | Cleared_screen
  | Printed pystr
  | Printed_metadata "pystr \<rightharpoonup> pystr"

record args =
  file_path :: pystr
  output_pkl :: pystr
  output_txt :: pystr
  interactive :: bool
  target_tag :: "pystr option"
  target_class :: "pystr option"
  drop_empty_metadata :: bool

text \<open>Python's truth value of an optional string: None and the empty string are false.\<close>

fun truthy :: "pystr option \<Rightarrow> bool" where
  "truthy None = False"
| "truthy (Some s) = (s \<noteq> [])"

definition preprocess_html ::
  "env \<Rightarrow> pystr \<Rightarrow> pystr option \<Rightarrow> pystr option \<Rightarrow> event list \<times> pystr" where
  "preprocess_html w html_string tag cls =
     (if truthy tag \<and> truthy cls then
        (case find_section w html_string (the tag) (the cls) of
           Some section \<Rightarrow>
             ([Log_info (u ''Filtering content within <'' @ the tag @ u '' class='' @ [0x27]
                 @ the cls @ [0x27] @ u ''>'')], section)
         | None \<Rightarrow>
             ([Log_info (u ''Filtering content within <'' @ the tag @ u '' class='' @ [0x27]
                 @ the cls @ [0x27] @ u ''>''),
               Log_warning (u ''No matching <'' @ the tag @ u '' class='' @ [0x27]
                 @ the cls @ [0x27] @ u ''> found in the HTML.'')], []))
      else ([Log_info (u ''No specific target specified; processing full HTML content.'')],
            html_string))"

text \<open>
  \<^verbatim>\<open>split_text_from_file(file_path)\<close> as \<^verbatim>\<open>split_html\<close> calls it: lines 150 to
  158 read the file again and parse it, the rest is the segmenter.
\<close>

fun str_py_error :: "py_error \<Rightarrow> pystr" where
  "str_py_error KeyError = u ''KeyError''"
| "str_py_error AttributeError = u ''AttributeError''"

definition read_and_split :: "env \<Rightarrow> pystr \<Rightarrow> exn + document list" where
  "read_and_split w path =
     (case read_text w path of
        Inl e \<Rightarrow> Inl e
      | Inr html_content \<Rightarrow>
          (case split_text_from_file HEADERS_TO_SPLIT_ON (html_parser w html_content) of
             Inl e \<Rightarrow> Inl (OtherException (str_py_error e))
           | Inr documents \<Rightarrow> Inr documents))"

text \<open>
  \<^verbatim>\<open>str.lower()\<close> on the ASCII letters; no other code point is lowered to the
  letter d, which is all the comparison of line 109 asks.
\<close>

definition lower :: "pystr \<Rightarrow> pystr" where
  "lower s = map (\<lambda>c. if 65 \<le> c \<and> c \<le> 90 then c + 32 else c) s"

text \<open>
  Lines 102 to 108: the screen is cleared, the split is printed and the answer is read.
  Each print and the prompt can raise; the events are those that happened before.
\<close>

definition show_and_ask :: "env \<Rightarrow> nat \<Rightarrow> document \<Rightarrow> event list \<times> (exn + pystr)" where
  "show_and_ask w k split =
     (case rich_print w (u ''====='') of
        Inl e \<Rightarrow> ([Cleared_screen], Inl e)
      | Inr u1 \<Rightarrow>
          (case rich_print_metadata w (metadata split) of
             Inl e \<Rightarrow> ([Cleared_screen, Printed (u ''====='')], Inl e)
           | Inr u2 \<Rightarrow>
               (case rich_print w (page_content split) of
                  Inl e \<Rightarrow>
                    ([Cleared_screen, Printed (u ''=====''), Printed_metadata (metadata split)],
                     Inl e)
                | Inr u3 \<Rightarrow>
                    (case user_input w k of
                       Inl e \<Rightarrow>
                         ([Cleared_screen, Printed (u ''=====''),
                           Printed_metadata (metadata split), Printed (page_content split)],
                          Inl e)
                     | Inr answer \<Rightarrow>
                         ([Cleared_screen, Printed (u ''=====''),
                           Printed_metadata (metadata split), Printed (page_content split)],
                          Inr answer)))))"

text \<open>
  Lines 96 to 112: the loop over the splits. \<open>k\<close> counts the prompts answered so far,
  \<open>kept\<close> is \<^verbatim>\<open>all_html_header_splits\<close>.
\<close>

fun review_loop ::
  "env \<Rightarrow> args \<Rightarrow> nat \<Rightarrow> document list \<Rightarrow> document list
     \<Rightarrow> event list \<times> (exn + document list)" where
  "review_loop w a k kept [] = ([], Inr kept)"
| "review_loop w a k kept (split # splits) =
     (if drop_empty_metadata a \<and> metadata split = Map.empty then
        (case review_loop w a k kept splits of
           (t, r) \<Rightarrow>
             (Log_info (u ''Dropping split with empty metadata: '' @ page_content split) # t, r))
      else if interactive a then
        (case show_and_ask w k split of
           (t1, Inl e) \<Rightarrow> (t1, Inl e)
         | (t1, Inr answer) \<Rightarrow>
             (case review_loop w a (Suc k)
                     (if lower answer = u ''d'' then kept else kept @ [split]) splits of
                (t, r) \<Rightarrow> (t1 @ t, r)))
      else review_loop w a k (kept @ [split]) splits)"

text \<open>Decimal digits of a number, for \<^verbatim>\<open>len(...)\<close> in a message.\<close>

fun str_nat :: "nat \<Rightarrow> pystr" where
  "str_nat n =
     (if n < 10 then [48 + n]
      else str_nat (n div 10) @ [48 + n mod 10])"

text \<open>Lines 120 to 124: what is written to the text file.\<close>

definition text_rendering :: "env \<Rightarrow> document list \<Rightarrow> pystr" where
  "text_rendering w splits =
     concat (map (\<lambda>header_split.
        u ''====='' @ [0x0A] @ str_metadata w (metadata header_split) @ [0x0A]
          @ page_content header_split @ [0x0A]) splits)"

text \<open>Lines 114 to 127: the two files are written.\<close>

definition save_splits :: "env \<Rightarrow> args \<Rightarrow> document list \<Rightarrow> event list \<times> (exn + unit)" where
  "save_splits w a splits =
     (case pickle_dump w (output_pkl a) splits of
        Inl e \<Rightarrow> ([], Inl e)
      | Inr u1 \<Rightarrow>
          (case write_text w (output_txt a) (text_rendering w splits) of
             Inl e \<Rightarrow>
               ([Dumped (output_pkl a) splits,
                 Log_info (u ''Serialized splits saved to '' @ output_pkl a)], Inl e)
           | Inr u2 \<Rightarrow>
               ([Dumped (output_pkl a) splits,
                 Log_info (u ''Serialized splits saved to '' @ output_pkl a),
                 Written (output_txt a) (text_rendering w splits),
                 Log_info (u ''Split contents saved to '' @ output_txt a),
                 Log_info (u ''Number of header splits: '' @ str_nat (length splits))], Inr ())))"

text \<open>
  Lines 76 to 127, the body of the \<^verbatim>\<open>try\<close>: the events up to the point where it
  ends, and how it ends (normally, or with the exception raised).
\<close>

definition split_html_try :: "env \<Rightarrow> args \<Rightarrow> event list \<times> (exn + unit)" where
  "split_html_try w a =
     (case read_text w (file_path a) of
        Inl e \<Rightarrow> ([], Inl e)
      | Inr html_string \<Rightarrow>
          (case preprocess_html w html_string (target_tag a) (target_class a) of
             (t1, preprocessed_html) \<Rightarrow>
               if strip preprocessed_html = [] then
                 (case pickle_dump w (output_pkl a) [] of
                    Inl e \<Rightarrow>
                      (t1 @ [Log_warning (u ''Preprocessed HTML is empty. No splits generated.'')],
                       Inl e)
                  | Inr u1 \<Rightarrow>
                      (case write_text w (output_txt a) [] of
                         Inl e \<Rightarrow>
                           (t1 @ [Log_warning
                                    (u ''Preprocessed HTML is empty. No splits generated.''),
                                  Dumped (output_pkl a) []], Inl e)
                       | Inr u2 \<Rightarrow>
                           (t1 @ [Log_warning
                                    (u ''Preprocessed HTML is empty. No splits generated.''),
                                  Dumped (output_pkl a) [], Written (output_txt a) []], Inr ())))
               else
                 (case read_and_split w (file_path a) of
                    Inl e \<Rightarrow> (t1, Inl e)
                  | Inr html_header_splits \<Rightarrow>
                      (case review_loop w a 0 [] html_header_splits of
                         (t2, Inl e) \<Rightarrow> (t1 @ t2, Inl e)
                       | (t2, Inr all_html_header_splits) \<Rightarrow>
                           (case save_splits w a all_html_header_splits of
                              (t3, r) \<Rightarrow> (t1 @ t2 @ t3, r))))))"

text \<open>
  Lines 75 and 129 to 132: the \<^verbatim>\<open>try\<close> with its two handlers. An exception that no
  handler matches leaves the function.
\<close>

datatype outcome = Returned | Propagated exn

definition split_html :: "env \<Rightarrow> args \<Rightarrow> event list \<times> outcome" where
  "split_html w a =
     (case split_html_try w a of
        (t, Inr u1) \<Rightarrow> (t, Returned)
      | (t, Inl FileNotFoundError) \<Rightarrow>
          (t @ [Log_error (u ''File not found: '' @ file_path a)], Returned)
      | (t, Inl (OtherException msg)) \<Rightarrow>
          (t @ [Log_error (u ''An error occurred: '' @ msg)], Returned)
      | (t, Inl (NotAnException msg)) \<Rightarrow> (t, Propagated (NotAnException msg)))"

subsection \<open>Notions used to state the results\<close>

text \<open>
  A string is tight when it is not empty and neither starts nor ends with whitespace;
  \<open>texts\<close> are the non-empty texts of a list of elements; \<open>spaced\<close> puts a space
  after each string, as both loops of the segmenter do.
\<close>

definition tight :: "pystr \<Rightarrow> bool" where
  "tight s = (s \<noteq> [] \<and> \<not> isspace (hd s) \<and> \<not> isspace (last s))"

definition texts :: "node list \<Rightarrow> pystr list" where
  "texts es = filter (\<lambda>t. t \<noteq> []) (map get_text es)"

definition spaced :: "pystr list \<Rightarrow> pystr" where
  "spaced ts = concat (map (\<lambda>t. t @ u '' '') ts)"

text \<open>
  The characters of the text nodes of the given classes among the given elements, as
  they are in the tree, in document order; and those of the subtree that the segmenter
  scans: the body tag when there is one, the whole soup otherwise.
\<close>

fun raw_strings :: "string_class list \<Rightarrow> node list \<Rightarrow> pystr list" where
  "raw_strings types [] = []"
| "raw_strings types (NavigableString cls s # es) =
     (if cls \<in> set types then s # raw_strings types es else raw_strings types es)"
| "raw_strings types (Tag n cs # es) = raw_strings types es"


text \<open>
  \<open>trimmed s p\<close>: \<open>p\<close> is \<open>s\<close> without its leading and trailing whitespace, and
  is not empty.
\<close>

definition trimmed :: "pystr \<Rightarrow> pystr \<Rightarrow> bool" where
  "trimmed s p =
     (\<exists>a b. s = a @ p @ b \<and> list_all isspace a \<and> list_all isspace b
        \<and> p \<noteq> [] \<and> \<not> isspace (hd p) \<and> \<not> isspace (last p))"

text \<open>
  The text nodes directly inside a tag that \<^verbatim>\<open>get_text\<close> of the tag returns:
  their characters as they are in the tree (\<open>own_raw_strings\<close>), and stripped, the
  empty ones left out (\<open>own_strings\<close>).
\<close>

fun own_raw_strings :: "node \<Rightarrow> pystr list" where
  "own_raw_strings (Tag n cs) = raw_strings (interesting_string_types n) cs"
| "own_raw_strings (NavigableString cls s) = []"

fun own_strings :: "node \<Rightarrow> pystr list" where
  "own_strings (Tag n cs) = stripped_strings (interesting_string_types n) cs"
| "own_strings (NavigableString cls s) = []"

section \<open>Properties\<close>

subsection \<open>Stripping and joining\<close>

lemma strip_Nil: "strip [] = []"
  by (simp add: strip_def)

lemma strip_tight: "strip s \<noteq> [] \<Longrightarrow> tight (strip s)"
proof -
  assume ne: "strip s \<noteq> []"
  define t where "t = dropWhile isspace s"
  define u where "u = dropWhile isspace (rev t)"
  have s: "strip s = rev u" by (simp add: strip_def t_def u_def)
  from ne have u: "u \<noteq> []" by (simp add: s)
  then have hu: "\<not> isspace (hd u)" unfolding u_def by (rule hd_dropWhile)
  from u have t: "t \<noteq> []" unfolding u_def by (cases "t = []") simp_all
  then have ht: "\<not> isspace (hd t)" unfolding t_def by (rule hd_dropWhile)
  have "rev t = takeWhile isspace (rev t) @ u" by (simp add: u_def)
  then have "rev (rev t) = rev (takeWhile isspace (rev t) @ u)" by (rule arg_cong)
  then have "t = rev u @ rev (takeWhile isspace (rev t))" by simp
  then have "hd t = hd (rev u @ rev (takeWhile isspace (rev t)))" by (rule arg_cong)
  then have "hd t = hd (rev u)" using u by simp
  with ht have "\<not> isspace (hd (rev u))" by simp
  moreover have "last (rev u) = hd u" using u by (simp add: last_rev)
  ultimately show ?thesis using u hu by (simp add: tight_def s)
qed

lemma tight_strip: "tight s \<Longrightarrow> strip s = s"
proof -
  assume t: "tight s"
  then have 1: "dropWhile isspace s = s" by (cases s) (auto simp: tight_def)
  from t have "rev s \<noteq> []" "\<not> isspace (hd (rev s))" by (auto simp: tight_def hd_rev)
  then have 2: "dropWhile isspace (rev s) = rev s" by (cases "rev s") auto
  show ?thesis by (simp add: strip_def 1 2)
qed

lemma tight_join: "xs \<noteq> [] \<Longrightarrow> \<forall>x\<in>set xs. tight x \<Longrightarrow> tight (join sep xs)"
  by (induction sep xs rule: join.induct) (auto simp: tight_def)

lemma join_Nil_iff: "\<forall>x\<in>set xs. x \<noteq> [] \<Longrightarrow> join sep xs = [] \<longleftrightarrow> xs = []"
  by (induction sep xs rule: join.induct) auto

lemma tight_stripped_strings: "\<forall>x\<in>set (stripped_strings types es). tight x"
  by (induction types es rule: stripped_strings.induct) (auto simp: strip_tight)

lemma join_stripped_tight: "join sep (stripped_strings types es) \<noteq> [] \<Longrightarrow> tight (join sep (stripped_strings types es))"
  by (metis tight_join tight_stripped_strings join.simps(1))

lemma get_text_tight: "get_text e \<noteq> [] \<Longrightarrow> tight (get_text e)"
  by (cases e) (auto simp: join_stripped_tight simp del: stripped_strings.simps)

lemma strip_get_text: "strip (get_text e) = get_text e"
  by (cases "get_text e = []") (auto simp: strip_Nil tight_strip get_text_tight)

lemma strip_get_text_soup: "strip (get_text_soup soup) = get_text_soup soup"
  unfolding get_text_soup_def
  by (cases "join (u '' '') (stripped_strings DEFAULT_INTERESTING_STRING_TYPES (subtrees soup)) = []") (auto simp: strip_Nil tight_strip join_stripped_tight)

lemma content_loop_spaced: "content_loop acc es = acc @ spaced (texts es)"
  by (induction acc es rule: content_loop.induct) (simp_all add: spaced_def texts_def Let_def)

lemma pre_header_loop_spaced:
  "pre_header_loop acc es = spaced (texts (rev (filter is_Tag es))) @ acc"
  by (induction acc es rule: pre_header_loop.induct) (simp_all add: spaced_def texts_def Let_def)

lemma tight_texts: "\<forall>t\<in>set (texts es). tight t"
  by (auto simp: texts_def get_text_tight)

lemma isspace_space: "isspace 32"
  by (simp add: isspace_def)

lemma strip_append_space: "tight s \<Longrightarrow> strip (s @ [32]) = s"
proof -
  assume t: "tight s"
  then have 1: "dropWhile isspace (s @ [32]) = s @ [32]" by (cases s) (auto simp: tight_def)
  from t have "rev s \<noteq> []" "\<not> isspace (hd (rev s))" by (auto simp: tight_def hd_rev)
  then have 2: "dropWhile isspace (rev s) = rev s" by (cases "rev s") auto
  show ?thesis by (simp add: strip_def 1 2 isspace_space)
qed

lemma spaced_join: "ts \<noteq> [] \<Longrightarrow> spaced ts = join (u '' '') ts @ u '' ''"
  by (induction "u '' ''" ts rule: join.induct) (simp_all add: spaced_def)

lemma strip_spaced: "\<forall>t\<in>set ts. tight t \<Longrightarrow> strip (spaced ts) = join (u '' '') ts"
proof (cases "ts = []")
  case True
  then show ?thesis by (simp add: spaced_def strip_Nil)
next
  case False
  assume "\<forall>t\<in>set ts. tight t"
  with False have "tight (join (u '' '') ts)" by (rule tight_join)
  then show ?thesis using False by (simp add: spaced_join strip_append_space)
qed

lemma strip_spaced_texts: "strip (spaced (texts es)) = join (u '' '') (texts es)"
  by (rule strip_spaced) (rule tight_texts)

lemma join_texts_Nil_iff: "join sep (texts es) = [] \<longleftrightarrow> texts es = []"
  by (rule join_Nil_iff) (simp add: texts_def)

subsection \<open>The links of the elements\<close>

lemma subtrees_append: "subtrees (xs @ ys) = subtrees xs @ subtrees ys"
  by (induction xs) simp_all

lemma elem_walk: "map elem (walk prev cs) = subtrees cs"
  by (induction prev cs rule: walk.induct) simp_all

lemma previous_elements_walk:
  "walk prev cs = es1 @ e # es2 \<Longrightarrow> previous_elements e = rev (map elem es1) @ prev"
proof (induction prev cs arbitrary: es1 e es2 rule: walk.induct)
  case (1 prev)
  then show ?case by simp
next
  case (2 prev cls s cs)
  show ?case
  proof (cases es1)
    case Nil
    with 2 show ?thesis by auto
  next
    case (Cons a as)
    with 2 show ?thesis by auto
  qed
next
  case (3 prev n ch cs)
  show ?case
  proof (cases es1)
    case Nil
    with 3 show ?thesis by auto
  next
    case (Cons a as)
    with 3(3) have a: "a = \<lparr>elem = Tag n ch, next_siblings = cs, previous_elements = prev\<rparr>"
      and w: "walk (Tag n ch # prev) ch @ walk (rev (subtrees [Tag n ch]) @ prev) cs = as @ e # es2"
      by simp_all
    from w consider (left) bs where "walk (Tag n ch # prev) ch = as @ e # bs"
      | (right) bs where "as = walk (Tag n ch # prev) ch @ bs"
          "walk (rev (subtrees [Tag n ch]) @ prev) cs = bs @ e # es2"
      by (auto simp: append_eq_append_conv2 append_eq_Cons_conv Cons_eq_append_conv)
    then show ?thesis
    proof cases
      case left
      from 3(1)[OF left] show ?thesis by (simp add: Cons a)
    next
      case right
      from 3(2)[OF right(2)] show ?thesis
        by (simp add: Cons a right(1) elem_walk)
    qed
  qed
qed

subsection \<open>The loops of the segmenter\<close>

lemma next_siblings_walk:
  "e \<in> set (walk prev cs) \<Longrightarrow>
   \<exists>contents before. (contents = cs \<or> (\<exists>n. Tag n contents \<in> set (subtrees cs)))
      \<and> contents = before @ elem e # next_siblings e"
proof (induction prev cs rule: walk.induct)
  case (1 prev)
  then show ?case by simp
next
  case (2 prev cls s cs)
  from 2(2) consider (hd) "e = \<lparr>elem = NavigableString cls s, next_siblings = cs, previous_elements = prev\<rparr>"
    | (tl) "e \<in> set (walk (NavigableString cls s # prev) cs)" by auto
  then show ?case
  proof cases
    case hd
    then have "NavigableString cls s # cs = [] @ elem e # next_siblings e" by simp
    then show ?thesis by blast
  next
    case tl
    from 2(1)[OF tl] obtain contents before where
      c: "contents = cs \<or> (\<exists>n. Tag n contents \<in> set (subtrees cs))"
      and b: "contents = before @ elem e # next_siblings e" by blast
    from c show ?thesis
    proof
      assume "contents = cs"
      with b have "NavigableString cls s # cs = (NavigableString cls s # before) @ elem e # next_siblings e"
        by simp
      then show ?thesis by blast
    next
      assume "\<exists>n. Tag n contents \<in> set (subtrees cs)"
      then have "\<exists>n. Tag n contents \<in> set (subtrees (NavigableString cls s # cs))" by auto
      with b show ?thesis by blast
    qed
  qed
next
  case (3 prev n ch cs)
  from 3(3) consider (hd) "e = \<lparr>elem = Tag n ch, next_siblings = cs, previous_elements = prev\<rparr>"
    | (inner) "e \<in> set (walk (Tag n ch # prev) ch)"
    | (tl) "e \<in> set (walk (rev (subtrees [Tag n ch]) @ prev) cs)" by auto
  then show ?case
  proof cases
    case hd
    then have "Tag n ch # cs = [] @ elem e # next_siblings e" by simp
    then show ?thesis by blast
  next
    case inner
    from 3(1)[OF inner] obtain contents before where
      c: "contents = ch \<or> (\<exists>m. Tag m contents \<in> set (subtrees ch))"
      and b: "contents = before @ elem e # next_siblings e" by blast
    from c have "\<exists>m. Tag m contents \<in> set (subtrees (Tag n ch # cs))" by auto
    with b show ?thesis by blast
  next
    case tl
    from 3(2)[OF tl] obtain contents before where
      c: "contents = cs \<or> (\<exists>m. Tag m contents \<in> set (subtrees cs))"
      and b: "contents = before @ elem e # next_siblings e" by blast
    from c show ?thesis
    proof
      assume "contents = cs"
      with b have "Tag n ch # cs = (Tag n ch # before) @ elem e # next_siblings e" by simp
      then show ?thesis by blast
    next
      assume "\<exists>m. Tag m contents \<in> set (subtrees cs)"
      then have "\<exists>m. Tag m contents \<in> set (subtrees (Tag n ch # cs))" by auto
      with b show ?thesis by blast
    qed
  qed
qed

lemma content_elements_filter:
  "content_elements names siblings = content_elements names (filter is_Tag siblings)"
  by (induction names siblings rule: content_elements.induct) simp_all

lemma content_elements_takeWhile:
  "content_elements names siblings =
     takeWhile (\<lambda>s. \<not> has_name names s) (filter is_Tag siblings)"
  by (induction names siblings rule: content_elements.induct) simp_all

lemma header_mapping_Some:
  "n \<in> set (headers_to_split_on hts) \<Longrightarrow>
   \<exists>label. header_mapping hts n = Some label \<and> (n, label) \<in> set hts"
proof -
  assume "n \<in> set (headers_to_split_on hts)"
  then have "n \<in> fst ` set (rev hts)" by (simp add: headers_to_split_on_def)
  then have "map_of (rev hts) n \<noteq> None" by (simp add: map_of_eq_None_iff)
  then obtain label where l: "map_of (rev hts) n = Some label" by blast
  then have "(n, label) \<in> set (rev hts)" by (rule map_of_SomeD)
  with l show ?thesis by (simp add: header_mapping_def)
qed

lemma header_document_Tag:
  assumes "elem h = Tag n cs" and "header_mapping hts n = Some label"
  shows "header_document hts h =
     Inr \<lparr>page_content =
            join (u '' '') (texts (content_elements (headers_to_split_on hts) (find_next_siblings h))),
          metadata = [label \<mapsto> get_text (elem h)]\<rparr>"
  using assms
  by (simp add: header_document_def Let_def content_loop_spaced strip_spaced_texts)

lemma header_document_header:
  assumes "has_name (headers_to_split_on hts) (elem h)"
  shows "\<exists>n cs label. elem h = Tag n cs \<and> (n, label) \<in> set hts
      \<and> header_mapping hts n = Some label
      \<and> header_document hts h =
         Inr \<lparr>page_content =
            join (u '' '') (texts (content_elements (headers_to_split_on hts) (find_next_siblings h))),
          metadata = [label \<mapsto> get_text (elem h)]\<rparr>"
proof -
  from assms obtain n cs where e: "elem h = Tag n cs" and n: "n \<in> set (headers_to_split_on hts)"
    by (cases "elem h") auto
  from header_mapping_Some[OF n] obtain label
    where l: "header_mapping hts n = Some label" "(n, label) \<in> set hts" by blast
  from header_document_Tag[OF e l(1)] e l show ?thesis by blast
qed

lemma header_loop_map:
  "\<forall>h\<in>set hs. \<exists>d. header_document hts h = Inr d \<Longrightarrow>
   header_loop hts documents hs = Inr (documents @ map (\<lambda>h. projr (header_document hts h)) hs)"
proof (induction hs arbitrary: documents)
  case Nil
  then show ?case by simp
next
  case (Cons h hs)
  from Cons.prems obtain d where d: "header_document hts h = Inr d" by auto
  from Cons.prems have "\<forall>h\<in>set hs. \<exists>d. header_document hts h = Inr d" by simp
  from Cons.IH[OF this] d show ?case by simp
qed

lemma all_headers_has_name:
  "h \<in> set (all_headers hts soup) \<Longrightarrow> has_name (headers_to_split_on hts) (elem h)"
  by (simp add: all_headers_def find_all_def)

lemma all_headers_document:
  "\<forall>h\<in>set (all_headers hts soup). \<exists>d. header_document hts h = Inr d"
  using all_headers_has_name header_document_header by blast

lemma split_headers:
  assumes "all_headers hts soup = h # hs"
  shows "split_text_from_file hts soup =
     Inr ((if texts (rev (find_all_previous h)) = [] then []
           else [\<lparr>page_content = join (u '' '') (texts (rev (find_all_previous h))),
                  metadata = Map.empty\<rparr>])
          @ map (\<lambda>h. projr (header_document hts h)) (h # hs))"
proof -
  have "\<forall>x\<in>set (h # hs). \<exists>d. header_document hts x = Inr d"
    using all_headers_document[of hts soup] assms by simp
  note loop = header_loop_map[OF this]
  have f: "filter is_Tag (find_all_previous h) = find_all_previous h"
    by (simp add: find_all_previous_def)
  show ?thesis
    unfolding split_text_from_file_def assms
    by (simp only: list.case Let_def loop pre_header_loop_spaced f append_Nil2
        strip_spaced_texts join_texts_Nil_iff if_not_P split: if_split) simp
qed

lemma split_no_headers:
  assumes "all_headers hts soup = []"
  shows "split_text_from_file hts soup =
     Inr (if body_get_text soup = [] then []
          else [\<lparr>page_content = body_get_text soup, metadata = Map.empty\<rparr>])"
proof -
  have "strip (body_get_text soup) = body_get_text soup"
    by (simp add: body_get_text_def strip_get_text strip_get_text_soup split: option.split)
  then show ?thesis
    by (simp add: split_text_from_file_def assms Let_def)
qed

subsection \<open>Located headers within the document\<close>

lemma elem_filter:
  "map elem (filter (\<lambda>e. P (elem e)) es) = filter P (map elem es)"
  by (simp add: filter_map o_def)

lemma elem_element_descendants: "map elem (element_descendants e) = descendants (elem e)"
  by (cases "elem e") (simp_all add: element_descendants_def elem_walk)

lemma all_headers_elems:
  "map elem (all_headers hts soup) =
     filter (has_name (headers_to_split_on hts))
       (case soup_body soup of
          Some body \<Rightarrow> descendants (elem body)
        | None \<Rightarrow> subtrees soup)"
  by (cases "soup_body soup")
     (simp_all add: all_headers_def find_all_def soup_elements_def elem_filter elem_walk
        elem_element_descendants)

lemma sub_walk:
  "e \<in> set (walk prev cs) \<Longrightarrow>
   \<exists>es1 es2. walk prev cs = es1 @ e # element_descendants e @ es2"
proof (induction prev cs rule: walk.induct)
  case (1 prev)
  then show ?case by simp
next
  case (2 prev cls s cs)
  from 2(2) consider (hd) "e = \<lparr>elem = NavigableString cls s, next_siblings = cs, previous_elements = prev\<rparr>"
    | (tl) "e \<in> set (walk (NavigableString cls s # prev) cs)" by auto
  then show ?case
  proof cases
    case hd
    then have "walk prev (NavigableString cls s # cs)
        = [] @ e # element_descendants e @ walk (NavigableString cls s # prev) cs"
      by (simp add: element_descendants_def)
    then show ?thesis by blast
  next
    case tl
    from 2(1)[OF tl] obtain es1 es2 where
      "walk (NavigableString cls s # prev) cs = es1 @ e # element_descendants e @ es2" by blast
    then have "walk prev (NavigableString cls s # cs)
        = (\<lparr>elem = NavigableString cls s, next_siblings = cs, previous_elements = prev\<rparr> # es1)
            @ e # element_descendants e @ es2" by simp
    then show ?thesis by blast
  qed
next
  case (3 prev n ch cs)
  let ?h = "\<lparr>elem = Tag n ch, next_siblings = cs, previous_elements = prev\<rparr>"
  from 3(3) consider (hd) "e = ?h"
    | (inner) "e \<in> set (walk (Tag n ch # prev) ch)"
    | (tl) "e \<in> set (walk (rev (subtrees [Tag n ch]) @ prev) cs)" by auto
  then show ?case
  proof cases
    case hd
    then have "walk prev (Tag n ch # cs)
        = [] @ e # element_descendants e @ walk (rev (subtrees [Tag n ch]) @ prev) cs"
      by (simp add: element_descendants_def)
    then show ?thesis by blast
  next
    case inner
    from 3(1)[OF inner] obtain es1 es2 where
      "walk (Tag n ch # prev) ch = es1 @ e # element_descendants e @ es2" by blast
    then have "walk prev (Tag n ch # cs)
        = (?h # es1) @ e # element_descendants e
            @ (es2 @ walk (rev (subtrees [Tag n ch]) @ prev) cs)" by simp
    then show ?thesis by blast
  next
    case tl
    from 3(2)[OF tl] obtain es1 es2 where
      "walk (rev (subtrees [Tag n ch]) @ prev) cs = es1 @ e # element_descendants e @ es2" by blast
    then have "walk prev (Tag n ch # cs)
        = (?h # walk (Tag n ch # prev) ch @ es1) @ e # element_descendants e @ es2" by simp
    then show ?thesis by blast
  qed
qed

lemma soup_body_in_soup:
  "soup_body soup = Some body \<Longrightarrow> body \<in> set (soup_elements soup) \<and> is_Tag (elem body)"
proof -
  assume "soup_body soup = Some body"
  then have "body \<in> set (soup_elements soup) \<and> has_name [u ''body''] (elem body)"
    unfolding soup_body_def by (auto simp: find_Some_iff in_set_conv_nth)
  then show ?thesis by (cases "elem body") simp_all
qed

lemma all_headers_in_soup:
  assumes "h \<in> set (all_headers hts soup)"
  shows "\<exists>es1 es2. soup_elements soup = es1 @ h # es2
      \<and> (\<forall>body. soup_body soup = Some body \<longrightarrow> body \<in> set es1)"
proof (cases "soup_body soup")
  case None
  with assms have "h \<in> set (soup_elements soup)" by (simp add: all_headers_def find_all_def)
  from split_list[OF this] obtain es1 es2 where "soup_elements soup = es1 @ h # es2" by blast
  with None show ?thesis by auto
next
  case (Some body)
  with assms have h: "h \<in> set (element_descendants body)"
    by (simp add: all_headers_def find_all_def)
  from soup_body_in_soup[OF Some] have "body \<in> set (walk [] soup)"
    by (simp add: soup_elements_def)
  from sub_walk[OF this] obtain es1 es2 where
    w: "walk [] soup = es1 @ body # element_descendants body @ es2" by blast
  from split_list[OF h] obtain ds1 ds2 where d: "element_descendants body = ds1 @ h # ds2"
    by blast
  have "soup_elements soup = (es1 @ body # ds1) @ h # (ds2 @ es2)"
    by (simp add: soup_elements_def w d)
  moreover have "\<forall>b. soup_body soup = Some b \<longrightarrow> b \<in> set (es1 @ body # ds1)"
    using Some by simp
  ultimately show ?thesis by (intro exI conjI)
qed

lemma find_all_previous_in_soup:
  "soup_elements soup = es1 @ h # es2 \<Longrightarrow>
   find_all_previous h = rev (filter is_Tag (map elem es1))"
  by (simp add: soup_elements_def find_all_previous_def previous_elements_walk rev_filter)

lemma header_chunk:
  assumes "h \<in> set (all_headers hts soup)"
  shows "\<exists>n cs label. elem h = Tag n cs \<and> (n, label) \<in> set hts
      \<and> header_mapping hts n = Some label
      \<and> header_document hts h =
         Inr \<lparr>page_content =
            join (u '' '') (texts (content_elements (headers_to_split_on hts) (find_next_siblings h))),
          metadata = [label \<mapsto> get_text (elem h)]\<rparr>"
  using assms all_headers_has_name header_document_header by blast

lemma split_structure:
  "\<exists>pre. split_text_from_file hts soup =
            Inr (pre @ map (\<lambda>h. projr (header_document hts h)) (all_headers hts soup))
     \<and> length pre \<le> 1 \<and> (\<forall>d\<in>set pre. metadata d = Map.empty)"
proof (cases "all_headers hts soup")
  case Nil
  from split_no_headers[OF Nil] Nil show ?thesis by auto
next
  case (Cons h hs)
  let ?pre = "if texts (rev (find_all_previous h)) = [] then []
           else [\<lparr>page_content = join (u '' '') (texts (rev (find_all_previous h))),
                  metadata = Map.empty\<rparr>]"
  from split_headers[OF Cons] Cons
  have "split_text_from_file hts soup =
      Inr (?pre @ map (\<lambda>h. projr (header_document hts h)) (all_headers hts soup))" by simp
  moreover have "length ?pre \<le> 1 \<and> (\<forall>d\<in>set ?pre. metadata d = Map.empty)" by simp
  ultimately show ?thesis by blast
qed

lemma texts_Nil_iff: "texts es = [] \<longleftrightarrow> (\<forall>e\<in>set es. get_text e = [])"
  by (auto simp: texts_def filter_empty_conv)

subsection \<open>What strip removes\<close>

lemma strip_Nil_iff: "strip s = [] \<longleftrightarrow> list_all isspace s"
proof
  assume "strip s = []"
  then have "dropWhile isspace (rev (dropWhile isspace s)) = []" by (simp add: strip_def)
  then have "\<forall>c\<in>set (rev (dropWhile isspace s)). isspace c" by (simp add: dropWhile_eq_Nil_conv)
  then have "dropWhile isspace s = []"
    by (cases "dropWhile isspace s") (use hd_dropWhile[of isspace s] in auto)
  then show "list_all isspace s" by (simp add: dropWhile_eq_Nil_conv list_all_iff)
next
  assume "list_all isspace s"
  then have d: "dropWhile isspace s = []" by (simp add: dropWhile_eq_Nil_conv list_all_iff)
  show "strip s = []" unfolding strip_def d by simp
qed

lemma strip_decompose:
  "\<exists>a b. s = a @ strip s @ b \<and> list_all isspace a \<and> list_all isspace b"
proof -
  define t where "t = dropWhile isspace s"
  have 1: "s = takeWhile isspace s @ t" by (simp add: t_def)
  have "rev (strip s @ rev (takeWhile isspace (rev t)))
      = takeWhile isspace (rev t) @ dropWhile isspace (rev t)"
    by (simp add: strip_def t_def)
  then have "rev (strip s @ rev (takeWhile isspace (rev t))) = rev t" by simp
  then have "strip s @ rev (takeWhile isspace (rev t)) = t" by (simp only: rev_is_rev_conv)
  then have 2: "t = strip s @ rev (takeWhile isspace (rev t))" by (rule sym)
  have a: "list_all isspace (takeWhile isspace s)"
    by (auto simp: list_all_iff dest: set_takeWhileD)
  have b: "list_all isspace (rev (takeWhile isspace (rev t)))"
    by (auto simp: list_all_iff dest: set_takeWhileD)
  from 1 2 have "s = takeWhile isspace s @ strip s @ rev (takeWhile isspace (rev t))" by simp
  with a b show ?thesis by blast
qed

lemma strip_trimmed: "\<not> list_all isspace s \<Longrightarrow> trimmed s (strip s)"
proof -
  assume "\<not> list_all isspace s"
  then have n: "strip s \<noteq> []" by (simp add: strip_Nil_iff)
  then have "tight (strip s)" by (rule strip_tight)
  with strip_decompose[of s] n show ?thesis by (auto simp: trimmed_def tight_def)
qed

lemma trimmed_strip: "trimmed s p \<Longrightarrow> p = strip s"
proof -
  assume "trimmed s p"
  then obtain a b where s: "s = a @ p @ b" and a: "list_all isspace a" and b: "list_all isspace b"
    and p: "p \<noteq> []" "\<not> isspace (hd p)" "\<not> isspace (last p)"
    by (auto simp: trimmed_def)
  from a have "dropWhile isspace (a @ p @ b) = dropWhile isspace (p @ b)"
    by (simp add: dropWhile_append2 list_all_iff)
  also from p have "\<dots> = p @ b" by (cases p) auto
  finally have 1: "dropWhile isspace s = p @ b" by (simp add: s)
  have "dropWhile isspace (rev b @ rev p) = dropWhile isspace (rev p)"
    by (rule dropWhile_append2) (use b in \<open>auto simp: list_all_iff\<close>)
  also from p have "\<dots> = rev p" by (cases "rev p") (auto simp: hd_rev)
  finally have 2: "dropWhile isspace (rev b @ rev p) = rev p" .
  show ?thesis by (simp add: strip_def 1 2)
qed

lemma stripped_strings_raw:
  "stripped_strings types es =
     map strip (filter (\<lambda>s. \<not> list_all isspace s) (raw_strings types es))"
  by (induction types es rule: stripped_strings.induct) (simp_all add: strip_Nil_iff)


lemma list_all2_trimmed:
  "list_all2 trimmed (filter (\<lambda>s. \<not> list_all isspace s) raw)
     (map strip (filter (\<lambda>s. \<not> list_all isspace s) raw))"
  by (induction raw) (simp_all add: strip_trimmed)

lemma list_all2_trimmed_unique:
  "list_all2 trimmed ss ps \<Longrightarrow> ps = map strip ss"
  by (induction ss ps rule: list_all2_induct) (simp_all add: trimmed_strip)

lemma raw_strings_mem:
  "NavigableString cls s \<in> set es \<Longrightarrow> cls \<in> set types \<Longrightarrow> s \<in> set (raw_strings types es)"
  by (induction types es rule: raw_strings.induct) auto

lemma get_text_nonempty:
  assumes "NavigableString cls s \<in> set (subtrees cs)"
    and "cls \<in> set (interesting_string_types n)" and "\<not> list_all isspace s"
  shows "get_text (Tag n cs) \<noteq> []"
proof -
  from raw_strings_mem[OF assms(1,2)] assms(3)
  have "stripped_strings (interesting_string_types n) (subtrees cs) \<noteq> []"
    by (auto simp: stripped_strings_raw filter_empty_conv)
  moreover have "\<forall>x\<in>set (stripped_strings (interesting_string_types n) (subtrees cs)). x \<noteq> []"
    using tight_stripped_strings by (auto simp: tight_def)
  ultimately show ?thesis by (simp add: join_Nil_iff)
qed

lemma subtrees_flat: "list_all (\<lambda>c. \<not> is_Tag c) cs \<Longrightarrow> subtrees cs = cs"
proof (induction cs)
  case Nil
  then show ?case by simp
next
  case (Cons c cs)
  then show ?case by (cases c) simp_all
qed

subsection \<open>Joining joined texts\<close>

lemma join_append:
  "xs \<noteq> [] \<Longrightarrow> ys \<noteq> [] \<Longrightarrow> join sep (xs @ ys) = join sep xs @ sep @ join sep ys"
proof (induction sep xs rule: join.induct)
  case (1 sep)
  then show ?case by simp
next
  case (2 sep x)
  then show ?case by (cases ys) simp_all
next
  case (3 sep x y zs)
  then show ?case by simp
qed

lemma join_concat:
  "\<forall>xs\<in>set xss. \<forall>x\<in>set xs. x \<noteq> [] \<Longrightarrow>
   join sep (filter (\<lambda>t. t \<noteq> []) (map (join sep) xss)) = join sep (concat xss)"
proof (induction xss)
  case Nil
  then show ?case by simp
next
  case (Cons xs xss)
  then have ih: "join sep (filter (\<lambda>t. t \<noteq> []) (map (join sep) xss)) = join sep (concat xss)"
    by simp
  from Cons.prems have ne: "\<forall>x\<in>set xs. x \<noteq> []" "\<forall>x\<in>set (concat xss). x \<noteq> []" by auto
  show ?case
  proof (cases "xs = []")
    case True
    with ih show ?thesis by simp
  next
    case False
    with ne(1) have j: "join sep xs \<noteq> []" by (simp add: join_Nil_iff)
    show ?thesis
    proof (cases "concat xss = []")
      case True
      then have "join sep (concat xss) = []" by (simp only: join.simps)
      with ih have "join sep (filter (\<lambda>t. t \<noteq> []) (map (join sep) xss)) = []" by simp
      then have f: "filter (\<lambda>t. t \<noteq> []) (map (join sep) xss) = []"
        by (subst (asm) join_Nil_iff) simp_all
      have l: "filter (\<lambda>t. t \<noteq> []) (map (join sep) (xs # xss)) = [join sep xs]"
        using j f by simp
      have r: "concat (xs # xss) = xs" using True by simp
      show ?thesis unfolding l r by simp
    next
      case c: False
      with ne(2) have "join sep (concat xss) \<noteq> []" by (simp add: join_Nil_iff)
      with ih have "filter (\<lambda>t. t \<noteq> []) (map (join sep) xss) \<noteq> []" by auto
      then obtain r rs where r: "filter (\<lambda>t. t \<noteq> []) (map (join sep) xss) = r # rs"
        by (cases "filter (\<lambda>t. t \<noteq> []) (map (join sep) xss)") auto
      have "join sep (filter (\<lambda>t. t \<noteq> []) (map (join sep) (xs # xss)))
          = join sep (join sep xs # r # rs)" using j r by simp
      also have "\<dots> = join sep xs @ sep @ join sep (r # rs)" by simp
      also have "\<dots> = join sep xs @ sep @ join sep (concat xss)" using ih r by simp
      also have "\<dots> = join sep (xs @ concat xss)" using False c by (simp add: join_append)
      finally show ?thesis by simp
    qed
  qed
qed

lemma own_strings_nonempty: "\<forall>x\<in>set (own_strings g). x \<noteq> []"
  by (cases g) (use tight_stripped_strings in \<open>auto simp: tight_def\<close>)

lemma concat_own_strings_filter:
  "concat (map own_strings (filter is_Tag es)) = concat (map own_strings es)"
proof (induction es)
  case Nil
  then show ?case by simp
next
  case (Cons e es)
  then show ?case by (cases e) simp_all
qed

lemma texts_flat:
  assumes "\<forall>g\<in>set es. \<forall>n cs. g = Tag n cs \<longrightarrow> list_all (\<lambda>c. \<not> is_Tag c) cs"
  shows "texts (filter is_Tag es)
     = filter (\<lambda>t. t \<noteq> []) (map (join (u '' '')) (map own_strings (filter is_Tag es)))"
  using assms
proof (induction es)
  case Nil
  then show ?case by (simp add: texts_def)
next
  case (Cons e es)
  then have ih: "texts (filter is_Tag es)
     = filter (\<lambda>t. t \<noteq> []) (map (join (u '' '')) (map own_strings (filter is_Tag es)))"
    by simp
  show ?case
  proof (cases e)
    case (NavigableString cls s)
    with ih show ?thesis by simp
  next
    case (Tag n cs)
    with Cons.prems have "list_all (\<lambda>c. \<not> is_Tag c) cs" by simp
    then have "subtrees cs = cs" by (rule subtrees_flat)
    then have "get_text e = join (u '' '') (own_strings e)" using Tag by simp
    with ih Tag show ?thesis by (simp add: texts_def)
  qed
qed

lemma join_texts_flat:
  assumes "\<forall>g\<in>set es. \<forall>n cs. g = Tag n cs \<longrightarrow> list_all (\<lambda>c. \<not> is_Tag c) cs"
  shows "join (u '' '') (texts (filter is_Tag es)) = join (u '' '') (concat (map own_strings es))"
proof -
  have "\<forall>xs\<in>set (map own_strings (filter is_Tag es)). \<forall>x\<in>set xs. x \<noteq> []"
    using own_strings_nonempty by auto
  from join_concat[OF this, of "u '' ''"] texts_flat[OF assms]
  show ?thesis by (simp only: concat_own_strings_filter)
qed

lemma own_strings_raw:
  "own_strings g = map strip (filter (\<lambda>s. \<not> list_all isspace s) (own_raw_strings g))"
  by (cases g) (simp_all add: stripped_strings_raw)

lemma concat_own_strings_raw:
  "concat (map own_strings es)
     = map strip (filter (\<lambda>s. \<not> list_all isspace s) (concat (map own_raw_strings es)))"
  by (induction es) (simp_all add: own_strings_raw)

lemma header_chunks_nonempty:
  "all_headers hts soup = hs \<Longrightarrow>
   \<forall>d\<in>set (map (\<lambda>h. projr (header_document hts h)) hs). metadata d \<noteq> Map.empty"
proof
  fix d assume a: "all_headers hts soup = hs"
    and "d \<in> set (map (\<lambda>h. projr (header_document hts h)) hs)"
  then obtain h where h: "h \<in> set (all_headers hts soup)"
    and d: "d = projr (header_document hts h)" by auto
  from header_chunk[OF h] d obtain label where
    "metadata d = [label \<mapsto> get_text (elem h)]" by auto
  then show "metadata d \<noteq> Map.empty" by simp
qed

lemma element_text_nonempty:
  assumes "t \<in> set (element_descendants g)" and "elem g = Tag n cs"
    and "elem t = NavigableString cls s"
    and "cls \<in> set (interesting_string_types n)" and "\<not> list_all isspace s"
  shows "get_text (elem g) \<noteq> []"
proof -
  from assms(1) have "elem t \<in> set (map elem (element_descendants g))" by simp
  then have "NavigableString cls s \<in> set (subtrees cs)"
    by (simp add: elem_element_descendants assms(2,3))
  from get_text_nonempty[OF this assms(4,5)] assms(2) show ?thesis by simp
qed

lemmas segmenter_defs =
  split_text_from_file_def all_headers_def body_get_text_def soup_body_def soup_elements_def
  element_descendants_def find_all_def find_all_previous_def find_next_siblings_def
  header_document_def header_mapping_def headers_to_split_on_def HEADERS_TO_SPLIT_ON_def
  get_text_soup_def strip_def isspace_def texts_def interesting_string_types_def
  DEFAULT_INTERESTING_STRING_TYPES_def

subsection \<open>The handlers of the entry point\<close>

lemma split_html_Returned_or_not_Exception:
  "snd (split_html w a) = Returned
   \<or> (\<exists>e. snd (split_html_try w a) = Inl e \<and> \<not> isinstance_Exception e)"
proof (cases "split_html_try w a")
  case (Pair t r)
  show ?thesis
  proof (cases r)
    case (Inr u)
    with Pair show ?thesis by (simp add: split_html_def)
  next
    case (Inl e)
    with Pair show ?thesis by (cases e) (simp_all add: split_html_def)
  qed
qed

lemmas pipeline_defs =
  split_html_try_def preprocess_html_def read_and_split_def save_splits_def text_rendering_def
  show_and_ask_def

section \<open>The claims\<close>

text \<open>
  C1, as the code has it. Take a document with at least one header, and the elements
  \<open>es1\<close> that come before the first header in document order. When a text node
  among them is not all whitespace and lies inside a tag among them whose
  \<^verbatim>\<open>get_text\<close> returns it, the output starts with exactly one chunk of empty
  metadata, whose text is not empty and neither starts nor ends with whitespace; the
  chunks after it are those of the headers and have non-empty metadata. When no tag
  before the first header contains a tag, the text of that chunk is the text of the
  preceding elements in reading order: the text nodes directly inside these tags that are
  not blank, each without its leading and trailing whitespace, joined with single spaces
  (and there is no such chunk when there is no such text node). For
  \<^verbatim>\<open><p>intro</p><h1>A</h1><p>body</p>\<close> the output is the chunk (intro, no
  metadata) followed by the chunk (body, Header 1: A).
\<close>

theorem pre_header_chunk:
  "(all_headers hts soup = first_header # rest \<longrightarrow>
    soup_elements soup = es1 @ first_header # es2 \<longrightarrow>
      ((\<exists>g t n cs cls s.
           g \<in> set es1 \<and> elem g = Tag n cs
         \<and> t \<in> set es1 \<and> t \<in> set (element_descendants g)
         \<and> elem t = NavigableString cls s
         \<and> cls \<in> set (interesting_string_types n) \<and> \<not> list_all isspace s) \<longrightarrow>
       (\<exists>text ds.
           split_text_from_file hts soup =
             Inr (\<lparr>page_content = text, metadata = Map.empty\<rparr> # ds)
         \<and> text \<noteq> [] \<and> \<not> isspace (hd text) \<and> \<not> isspace (last text)
         \<and> length ds = Suc (length rest)
         \<and> (\<forall>d\<in>set ds. metadata d \<noteq> Map.empty)))
    \<and> ((\<forall>g\<in>set es1. \<forall>n cs. elem g = Tag n cs \<longrightarrow> list_all (\<lambda>c. \<not> is_Tag c) cs) \<longrightarrow>
       (\<exists>ps ds.
           list_all2 trimmed
             (filter (\<lambda>s. \<not> list_all isspace s)
                (concat (map own_raw_strings (map elem es1)))) ps
         \<and> split_text_from_file hts soup =
             Inr ((if ps = [] then []
                   else [\<lparr>page_content = join (u '' '') ps, metadata = Map.empty\<rparr>]) @ ds)
         \<and> length ds = Suc (length rest)
         \<and> (\<forall>d\<in>set ds. metadata d \<noteq> Map.empty))))
   \<and> split_text_from_file HEADERS_TO_SPLIT_ON
        [Tag (u ''p'') [NavigableString PlainString (u ''intro'')],
         Tag (u ''h1'') [NavigableString PlainString (u ''A'')],
         Tag (u ''p'') [NavigableString PlainString (u ''body'')]]
      = Inr [\<lparr>page_content = u ''intro'', metadata = Map.empty\<rparr>,
             \<lparr>page_content = u ''body'', metadata = [u ''Header 1'' \<mapsto> u ''A'']\<rparr>]"
proof (intro conjI impI)
  assume hs: "all_headers hts soup = first_header # rest"
    and e: "soup_elements soup = es1 @ first_header # es2"
    and ex: "\<exists>g t n cs cls s.
           g \<in> set es1 \<and> elem g = Tag n cs
         \<and> t \<in> set es1 \<and> t \<in> set (element_descendants g)
         \<and> elem t = NavigableString cls s
         \<and> cls \<in> set (interesting_string_types n) \<and> \<not> list_all isspace s"
  let ?ds = "map (\<lambda>h. projr (header_document hts h)) (first_header # rest)"
  let ?text = "join (u '' '') (texts (rev (find_all_previous first_header)))"
  from find_all_previous_in_soup[OF e]
  have r: "rev (find_all_previous first_header) = filter is_Tag (map elem es1)" by simp
  from ex obtain g t n cs cls s where g: "g \<in> set es1" "elem g = Tag n cs"
    and t: "t \<in> set (element_descendants g)" "elem t = NavigableString cls s"
      "cls \<in> set (interesting_string_types n)" "\<not> list_all isspace s" by blast
  from element_text_nonempty[OF t(1) g(2) t(2,3,4)] have "get_text (elem g) \<noteq> []" .
  moreover from g have "elem g \<in> set (filter is_Tag (map elem es1))" by force
  ultimately have ne: "texts (rev (find_all_previous first_header)) \<noteq> []"
    unfolding r by (auto simp: texts_Nil_iff)
  with split_headers[OF hs] have s: "split_text_from_file hts soup =
      Inr (\<lparr>page_content = ?text, metadata = Map.empty\<rparr> # ?ds)" by simp
  from ne tight_texts have "tight ?text" by (intro tight_join) auto
  then have j: "?text \<noteq> []" "\<not> isspace (hd ?text)" "\<not> isspace (last ?text)"
    unfolding tight_def by blast+
  have l: "length ?ds = Suc (length rest)" by simp
  note n = header_chunks_nonempty[OF hs]
  from s j l n show "\<exists>text ds.
           split_text_from_file hts soup =
             Inr (\<lparr>page_content = text, metadata = Map.empty\<rparr> # ds)
         \<and> text \<noteq> [] \<and> \<not> isspace (hd text) \<and> \<not> isspace (last text)
         \<and> length ds = Suc (length rest)
         \<and> (\<forall>d\<in>set ds. metadata d \<noteq> Map.empty)"
    by (intro exI[of _ ?text] exI[of _ ?ds] conjI)
next
  assume hs: "all_headers hts soup = first_header # rest"
    and e: "soup_elements soup = es1 @ first_header # es2"
    and flat: "\<forall>g\<in>set es1. \<forall>n cs. elem g = Tag n cs \<longrightarrow> list_all (\<lambda>c. \<not> is_Tag c) cs"
  let ?ds = "map (\<lambda>h. projr (header_document hts h)) (first_header # rest)"
  let ?own = "concat (map own_strings (map elem es1))"
  from find_all_previous_in_soup[OF e]
  have r: "rev (find_all_previous first_header) = filter is_Tag (map elem es1)" by simp
  from flat have f: "\<forall>g\<in>set (map elem es1). \<forall>n cs. g = Tag n cs \<longrightarrow> list_all (\<lambda>c. \<not> is_Tag c) cs"
    by auto
  from join_texts_flat[OF f]
  have j: "join (u '' '') (texts (rev (find_all_previous first_header))) = join (u '' '') ?own"
    unfolding r .
  have "\<forall>x\<in>set ?own. x \<noteq> []" using own_strings_nonempty by auto
  then have o: "join (u '' '') ?own = [] \<longleftrightarrow> ?own = []" by (rule join_Nil_iff)
  have k: "texts (rev (find_all_previous first_header)) = [] \<longleftrightarrow> ?own = []"
  proof -
    have "texts (rev (find_all_previous first_header)) = []
        \<longleftrightarrow> join (u '' '') (texts (rev (find_all_previous first_header))) = []"
      by (simp only: join_texts_Nil_iff)
    also have "\<dots> \<longleftrightarrow> join (u '' '') ?own = []" by (simp only: j)
    also have "\<dots> \<longleftrightarrow> ?own = []" by (rule o)
    finally show ?thesis .
  qed
  from split_headers[OF hs] have s: "split_text_from_file hts soup =
      Inr ((if ?own = [] then []
            else [\<lparr>page_content = join (u '' '') ?own, metadata = Map.empty\<rparr>]) @ ?ds)"
    unfolding k j .
  have l: "length ?ds = Suc (length rest)" by simp
  note n = header_chunks_nonempty[OF hs]
  have o: "?own = map strip (filter (\<lambda>s. \<not> list_all isspace s)
      (concat (map own_raw_strings (map elem es1))))"
    by (rule concat_own_strings_raw)
  have t: "list_all2 trimmed
      (filter (\<lambda>s. \<not> list_all isspace s) (concat (map own_raw_strings (map elem es1)))) ?own"
    unfolding o by (rule list_all2_trimmed)
  from t s l n show "\<exists>ps ds.
           list_all2 trimmed
             (filter (\<lambda>s. \<not> list_all isspace s)
                (concat (map own_raw_strings (map elem es1)))) ps
         \<and> split_text_from_file hts soup =
             Inr ((if ps = [] then []
                   else [\<lparr>page_content = join (u '' '') ps, metadata = Map.empty\<rparr>]) @ ds)
         \<and> length ds = Suc (length rest)
         \<and> (\<forall>d\<in>set ds. metadata d \<noteq> Map.empty)"
    by (intro exI[of _ ?own] exI[of _ ?ds] conjI)
next
  show "split_text_from_file HEADERS_TO_SPLIT_ON
        [Tag (u ''p'') [NavigableString PlainString (u ''intro'')],
         Tag (u ''h1'') [NavigableString PlainString (u ''A'')],
         Tag (u ''p'') [NavigableString PlainString (u ''body'')]]
      = Inr [\<lparr>page_content = u ''intro'', metadata = Map.empty\<rparr>,
             \<lparr>page_content = u ''body'', metadata = [u ''Header 1'' \<mapsto> u ''A'']\<rparr>]"
    by (simp add: segmenter_defs)
qed

theorem pre_header_chunk_witness:
  "all_headers HEADERS_TO_SPLIT_ON
      [Tag (u ''p'') [NavigableString PlainString ([0xA0] @ u ''intro '')],
       Tag (u ''h1'') [NavigableString PlainString (u ''A'')]]
     = [\<lparr>elem = Tag (u ''h1'') [NavigableString PlainString (u ''A'')], next_siblings = [],
         previous_elements =
           [NavigableString PlainString ([0xA0] @ u ''intro ''),
            Tag (u ''p'') [NavigableString PlainString ([0xA0] @ u ''intro '')]]\<rparr>]
   \<and> (\<exists>text ds.
          split_text_from_file HEADERS_TO_SPLIT_ON
            [Tag (u ''p'') [NavigableString PlainString ([0xA0] @ u ''intro '')],
             Tag (u ''h1'') [NavigableString PlainString (u ''A'')]]
            = Inr (\<lparr>page_content = text, metadata = Map.empty\<rparr> # ds)
        \<and> text \<noteq> [] \<and> length ds = 1)
   \<and> (\<exists>ds.
          split_text_from_file HEADERS_TO_SPLIT_ON
            [Tag (u ''p'') [NavigableString PlainString ([0xA0] @ u ''intro '')],
             Tag (u ''h1'') [NavigableString PlainString (u ''A'')]]
            = Inr (\<lparr>page_content = u ''intro'', metadata = Map.empty\<rparr> # ds)
        \<and> length ds = 1)"
proof -
  let ?p = "Tag (u ''p'') [NavigableString PlainString ([0xA0] @ u ''intro '')]"
  let ?t = "NavigableString PlainString ([0xA0] @ u ''intro '')"
  let ?soup = "[?p, Tag (u ''h1'') [NavigableString PlainString (u ''A'')]]"
  let ?pe = "\<lparr>elem = ?p,
      next_siblings = [Tag (u ''h1'') [NavigableString PlainString (u ''A'')]],
      previous_elements = []\<rparr>"
  let ?te = "\<lparr>elem = ?t, next_siblings = [], previous_elements = [?p]\<rparr>"
  let ?h = "\<lparr>elem = Tag (u ''h1'') [NavigableString PlainString (u ''A'')], next_siblings = [],
         previous_elements = [?t, ?p]\<rparr>"
  let ?ae = "\<lparr>elem = NavigableString PlainString (u ''A''), next_siblings = [],
         previous_elements = [Tag (u ''h1'') [NavigableString PlainString (u ''A'')], ?t, ?p]\<rparr>"
  have h: "all_headers HEADERS_TO_SPLIT_ON ?soup = ?h # []"
    by (simp add: segmenter_defs)
  have e: "soup_elements ?soup = [?pe, ?te] @ ?h # [?ae]"
    by (simp add: segmenter_defs)
  have d: "?te \<in> set (element_descendants ?pe)"
    by (simp add: segmenter_defs)
  have i: "PlainString \<in> set (interesting_string_types (u ''p''))"
    by (simp add: segmenter_defs)
  have n: "\<not> list_all isspace ([0xA0] @ u ''intro '')"
    by (simp add: isspace_def)
  have c0: "?pe \<in> set [?pe, ?te] \<and> elem ?pe = Tag (u ''p'') [?t]
         \<and> ?te \<in> set [?pe, ?te] \<and> ?te \<in> set (element_descendants ?pe)
         \<and> elem ?te = NavigableString PlainString ([0xA0] @ u ''intro '')
         \<and> PlainString \<in> set (interesting_string_types (u ''p''))
         \<and> \<not> list_all isspace ([0xA0] @ u ''intro '')"
    using d i n by simp
  have c: "\<exists>g t n cs cls s.
           g \<in> set [?pe, ?te] \<and> elem g = Tag n cs
         \<and> t \<in> set [?pe, ?te] \<and> t \<in> set (element_descendants g)
         \<and> elem t = NavigableString cls s
         \<and> cls \<in> set (interesting_string_types n) \<and> \<not> list_all isspace s"
    apply (rule exI[of _ ?pe])
    apply (rule exI[of _ ?te])
    apply (rule exI[of _ "u ''p''"])
    apply (rule exI[of _ "[?t]"])
    apply (rule exI[of _ PlainString])
    apply (rule exI[of _ "[0xA0] @ u ''intro ''"])
    apply (rule c0)
    done
  have f: "\<forall>g\<in>set [?pe, ?te]. \<forall>n cs. elem g = Tag n cs \<longrightarrow> list_all (\<lambda>c. \<not> is_Tag c) cs"
    by simp
  note T = pre_header_chunk[where hts = HEADERS_TO_SPLIT_ON and soup = ?soup
      and first_header = ?h and rest = "[]" and ?es1.0 = "[?pe, ?te]" and ?es2.0 = "[?ae]",
      THEN conjunct1, THEN mp, THEN mp, OF h e]
  from T[THEN conjunct1, THEN mp, OF c] obtain content ds where
    1: "split_text_from_file HEADERS_TO_SPLIT_ON ?soup
          = Inr (\<lparr>page_content = content, metadata = Map.empty\<rparr> # ds)"
    and 2: "content \<noteq> []" and 3: "length ds = Suc (length ([] :: element list))" by blast
  from 3 have l3: "length ds = 1" by simp
  from 1 2 l3 have A: "\<exists>text ds.
          split_text_from_file HEADERS_TO_SPLIT_ON ?soup
            = Inr (\<lparr>page_content = text, metadata = Map.empty\<rparr> # ds)
        \<and> text \<noteq> [] \<and> length ds = 1"
    by (intro exI[of _ content] exI[of _ ds] conjI)
  from T[THEN conjunct2, THEN mp, OF f] obtain ps ds' where
    t: "list_all2 trimmed
         (filter (\<lambda>s. \<not> list_all isspace s)
            (concat (map own_raw_strings (map elem [?pe, ?te])))) ps"
    and 4: "split_text_from_file HEADERS_TO_SPLIT_ON ?soup
          = Inr ((if ps = [] then []
                   else [\<lparr>page_content = join (u '' '') ps, metadata = Map.empty\<rparr>]) @ ds')"
    and 5: "length ds' = Suc (length ([] :: element list))" by blast
  have o: "filter (\<lambda>s. \<not> list_all isspace s)
      (concat (map own_raw_strings (map elem [?pe, ?te]))) = [[0xA0] @ u ''intro '']"
    by (simp add: segmenter_defs)
  from list_all2_trimmed_unique[OF t]
  have "ps = map strip [[0xA0] @ u ''intro '']" unfolding o .
  then have p: "ps = [u ''intro'']" by (simp add: strip_def isspace_def)
  from 4 have s4: "split_text_from_file HEADERS_TO_SPLIT_ON ?soup
          = Inr (\<lparr>page_content = u ''intro'', metadata = Map.empty\<rparr> # ds')"
    unfolding p by simp
  from 5 have l5: "length ds' = 1" by simp
  from s4 l5 have B: "\<exists>ds.
          split_text_from_file HEADERS_TO_SPLIT_ON ?soup
            = Inr (\<lparr>page_content = u ''intro'', metadata = Map.empty\<rparr> # ds)
        \<and> length ds = 1"
    by (intro exI[of _ ds'] conjI)
  from h have h': "all_headers HEADERS_TO_SPLIT_ON ?soup = [?h]" .
  from h' A B show ?thesis by (intro conjI)
qed

text \<open>
  The statement that asks only for non-whitespace text before the first header fails. A
  text node that no tag encloses is not visited by the backward walk, which keeps tags
  only: the document \<^verbatim>\<open>intro<h1>A</h1>\<close> gives no pre-header chunk.
\<close>

theorem bare_text_before_first_header_counterexample:
  "all_headers HEADERS_TO_SPLIT_ON [NavigableString PlainString (u ''intro''), Tag (u ''h1'') [NavigableString PlainString (u ''A'')]]
     = [\<lparr>elem = Tag (u ''h1'') [NavigableString PlainString (u ''A'')], next_siblings = [],
         previous_elements = [NavigableString PlainString (u ''intro'')]\<rparr>]
   \<and> strip (u ''intro'') = (u ''intro'')
   \<and> split_text_from_file HEADERS_TO_SPLIT_ON
        [NavigableString PlainString (u ''intro''), Tag (u ''h1'') [NavigableString PlainString (u ''A'')]]
      = Inr [\<lparr>page_content = [], metadata = [(u ''Header 1'') \<mapsto> (u ''A'')]\<rparr>]"
  by (simp add: segmenter_defs)

text \<open>
  C2. When the scanned subtree has at least one header element, the output is an optional
  pre-header chunk followed by one chunk per header element found in the subtree; the
  metadata of each of these chunks has exactly one entry, whose key is the label the spec
  gives to the header's tag and whose value is the header's own text.
\<close>

theorem per_header_chunks:
  assumes "all_headers hts soup = hs" and "hs \<noteq> []"
  shows "\<exists>pre ds. split_text_from_file hts soup = Inr (pre @ ds)
      \<and> length pre \<le> 1 \<and> (\<forall>d\<in>set pre. metadata d = Map.empty)
      \<and> length ds = length hs
      \<and> map elem hs =
          filter (has_name (headers_to_split_on hts))
            (case soup_body soup of
               Some body \<Rightarrow> descendants (elem body)
             | None \<Rightarrow> subtrees soup)
      \<and> (\<forall>i<length hs. \<exists>n cs label.
            elem (hs ! i) = Tag n cs \<and> (n, label) \<in> set hts
            \<and> header_mapping hts n = Some label
            \<and> metadata (ds ! i) = [label \<mapsto> get_text (elem (hs ! i))]
            \<and> dom (metadata (ds ! i)) = {label})"
proof -
  let ?ds = "map (\<lambda>h. projr (header_document hts h)) hs"
  from split_structure[of hts soup] assms(1) obtain pre where
    s: "split_text_from_file hts soup = Inr (pre @ ?ds)"
    and p: "length pre \<le> 1" "\<forall>d\<in>set pre. metadata d = Map.empty" by blast
  have o: "map elem hs =
          filter (has_name (headers_to_split_on hts))
            (case soup_body soup of
               Some body \<Rightarrow> descendants (elem body)
             | None \<Rightarrow> subtrees soup)"
    using all_headers_elems[of hts soup] assms(1) by simp
  have m: "\<forall>i<length hs. \<exists>n cs label.
            elem (hs ! i) = Tag n cs \<and> (n, label) \<in> set hts
            \<and> header_mapping hts n = Some label
            \<and> metadata (?ds ! i) = [label \<mapsto> get_text (elem (hs ! i))]
            \<and> dom (metadata (?ds ! i)) = {label}"
  proof (intro allI impI)
    fix i assume i: "i < length hs"
    then have "hs ! i \<in> set (all_headers hts soup)" using assms(1) by simp
    from header_chunk[OF this] obtain n cs label where
      "elem (hs ! i) = Tag n cs" "(n, label) \<in> set hts" "header_mapping hts n = Some label"
      and d: "header_document hts (hs ! i) =
         Inr \<lparr>page_content =
            join (u '' '') (texts (content_elements (headers_to_split_on hts) (find_next_siblings (hs ! i)))),
          metadata = [label \<mapsto> get_text (elem (hs ! i))]\<rparr>" by blast
    moreover from d i have "metadata (?ds ! i) = [label \<mapsto> get_text (elem (hs ! i))]" by simp
    moreover from d i have "dom (metadata (?ds ! i)) = {label}" by simp
    ultimately show "\<exists>n cs label.
            elem (hs ! i) = Tag n cs \<and> (n, label) \<in> set hts
            \<and> header_mapping hts n = Some label
            \<and> metadata (?ds ! i) = [label \<mapsto> get_text (elem (hs ! i))]
            \<and> dom (metadata (?ds ! i)) = {label}" by blast
  qed
  have "length ?ds = length hs" by simp
  with s p o m show ?thesis by blast
qed

theorem per_header_chunks_witness:
  "all_headers HEADERS_TO_SPLIT_ON
     [Tag (u ''h1'') [NavigableString PlainString (u ''A'')], Tag (u ''p'') [NavigableString PlainString (u ''hello'')],
      Tag (u ''h2'') [NavigableString PlainString (u ''B'')], Tag (u ''p'') [NavigableString PlainString (u ''world'')]]
   = [\<lparr>elem = Tag (u ''h1'') [NavigableString PlainString (u ''A'')],
       next_siblings = [Tag (u ''p'') [NavigableString PlainString (u ''hello'')],
                        Tag (u ''h2'') [NavigableString PlainString (u ''B'')], Tag (u ''p'') [NavigableString PlainString (u ''world'')]],
       previous_elements = []\<rparr>,
      \<lparr>elem = Tag (u ''h2'') [NavigableString PlainString (u ''B'')],
       next_siblings = [Tag (u ''p'') [NavigableString PlainString (u ''world'')]],
       previous_elements = [NavigableString PlainString (u ''hello''), Tag (u ''p'') [NavigableString PlainString (u ''hello'')],
                            NavigableString PlainString (u ''A''), Tag (u ''h1'') [NavigableString PlainString (u ''A'')]]\<rparr>]
   \<and> split_text_from_file HEADERS_TO_SPLIT_ON
       [Tag (u ''h1'') [NavigableString PlainString (u ''A'')], Tag (u ''p'') [NavigableString PlainString (u ''hello'')],
        Tag (u ''h2'') [NavigableString PlainString (u ''B'')], Tag (u ''p'') [NavigableString PlainString (u ''world'')]]
      = Inr [\<lparr>page_content = (u ''hello''), metadata = [(u ''Header 1'') \<mapsto> (u ''A'')]\<rparr>,
             \<lparr>page_content = (u ''world''), metadata = [(u ''Header 2'') \<mapsto> (u ''B'')]\<rparr>]
   \<and> (\<exists>pre ds. split_text_from_file HEADERS_TO_SPLIT_ON
       [Tag (u ''h1'') [NavigableString PlainString (u ''A'')], Tag (u ''p'') [NavigableString PlainString (u ''hello'')],
        Tag (u ''h2'') [NavigableString PlainString (u ''B'')], Tag (u ''p'') [NavigableString PlainString (u ''world'')]] = Inr (pre @ ds)
      \<and> length pre \<le> 1 \<and> length ds = 2)"
proof -
  let ?soup = "[Tag (u ''h1'') [NavigableString PlainString (u ''A'')], Tag (u ''p'') [NavigableString PlainString (u ''hello'')],
      Tag (u ''h2'') [NavigableString PlainString (u ''B'')], Tag (u ''p'') [NavigableString PlainString (u ''world'')]]"
  let ?hs = "[\<lparr>elem = Tag (u ''h1'') [NavigableString PlainString (u ''A'')],
       next_siblings = [Tag (u ''p'') [NavigableString PlainString (u ''hello'')],
                        Tag (u ''h2'') [NavigableString PlainString (u ''B'')], Tag (u ''p'') [NavigableString PlainString (u ''world'')]],
       previous_elements = []\<rparr>,
      \<lparr>elem = Tag (u ''h2'') [NavigableString PlainString (u ''B'')],
       next_siblings = [Tag (u ''p'') [NavigableString PlainString (u ''world'')]],
       previous_elements = [NavigableString PlainString (u ''hello''), Tag (u ''p'') [NavigableString PlainString (u ''hello'')],
                            NavigableString PlainString (u ''A''), Tag (u ''h1'') [NavigableString PlainString (u ''A'')]]\<rparr>]"
  have h: "all_headers HEADERS_TO_SPLIT_ON ?soup = ?hs"
    by (simp add: segmenter_defs)
  have n: "?hs \<noteq> []" by simp
  have s: "split_text_from_file HEADERS_TO_SPLIT_ON ?soup
      = Inr [\<lparr>page_content = (u ''hello''), metadata = [(u ''Header 1'') \<mapsto> (u ''A'')]\<rparr>,
             \<lparr>page_content = (u ''world''), metadata = [(u ''Header 2'') \<mapsto> (u ''B'')]\<rparr>]"
    by (simp add: segmenter_defs)
  from per_header_chunks[OF h n] obtain pre ds where
    a: "split_text_from_file HEADERS_TO_SPLIT_ON ?soup = Inr (pre @ ds)"
    and b: "length pre \<le> 1" and c: "length ds = length ?hs" by blast
  from c have "length ds = 2" by simp
  with a b have "\<exists>pre ds. split_text_from_file HEADERS_TO_SPLIT_ON ?soup = Inr (pre @ ds)
      \<and> length pre \<le> 1 \<and> length ds = 2"
    by (intro exI[of _ pre] exI[of _ ds] conjI)
  with h s show ?thesis by (intro conjI)
qed



text \<open>
  C4. The content of a located header's chunk is collected from the siblings that follow
  the header in its parent's contents, and from those before the first following sibling
  whose tag is a header tag of the spec, whichever header tag that is.
\<close>

theorem located_header_content:
  assumes "h \<in> set (all_headers hts soup)"
  shows "\<exists>d. header_document hts h = Inr d
      \<and> page_content d =
          strip (content_loop []
            (takeWhile (\<lambda>s. \<not> has_name (headers_to_split_on hts) s) (find_next_siblings h)))
      \<and> set (takeWhile (\<lambda>s. \<not> has_name (headers_to_split_on hts) s) (find_next_siblings h))
          \<subseteq> set (next_siblings h)
      \<and> (\<exists>contents before.
            (contents = soup \<or> (\<exists>n. Tag n contents \<in> set (subtrees soup)))
            \<and> contents = before @ elem h # next_siblings h)
      \<and> (\<forall>before n cs after.
            find_next_siblings h = before @ Tag n cs # after
            \<and> n \<in> set (headers_to_split_on hts)
            \<and> (\<forall>s\<in>set before. \<not> has_name (headers_to_split_on hts) s)
            \<longrightarrow> takeWhile (\<lambda>s. \<not> has_name (headers_to_split_on hts) s) (find_next_siblings h)
                  = before)"
proof -
  let ?P = "\<lambda>s. \<not> has_name (headers_to_split_on hts) s"
  have c: "content_elements (headers_to_split_on hts) (find_next_siblings h)
      = takeWhile ?P (find_next_siblings h)"
    by (simp add: content_elements_takeWhile find_next_siblings_def)
  from header_chunk[OF assms] c obtain d where d: "header_document hts h = Inr d"
    and pc: "page_content d = strip (content_loop [] (takeWhile ?P (find_next_siblings h)))"
    by (auto simp: content_loop_spaced strip_spaced_texts)
  have s: "set (takeWhile ?P (find_next_siblings h)) \<subseteq> set (next_siblings h)"
    using set_takeWhileD by (fastforce simp: find_next_siblings_def)
  from all_headers_in_soup[OF assms] have "h \<in> set (walk [] soup)"
    by (auto simp: soup_elements_def)
  from next_siblings_walk[OF this] have p: "\<exists>contents before.
            (contents = soup \<or> (\<exists>n. Tag n contents \<in> set (subtrees soup)))
            \<and> contents = before @ elem h # next_siblings h" .
  have t: "\<forall>before n cs after.
            find_next_siblings h = before @ Tag n cs # after
            \<and> n \<in> set (headers_to_split_on hts)
            \<and> (\<forall>s\<in>set before. ?P s)
            \<longrightarrow> takeWhile ?P (find_next_siblings h) = before"
    by (auto simp: takeWhile_append2)
  from d pc s p t show ?thesis by (intro exI[of _ d] conjI)
qed

theorem located_header_content_witness:
  "\<lparr>elem = Tag (u ''h1'') [NavigableString PlainString (u ''A'')],
     next_siblings = [Tag (u ''p'') [NavigableString PlainString (u ''x'')], NavigableString PlainString (u ''bare''),
                      Tag (u ''h3'') [NavigableString PlainString (u ''C'')], Tag (u ''p'') [NavigableString PlainString (u ''y'')]],
     previous_elements = []\<rparr>
    \<in> set (all_headers HEADERS_TO_SPLIT_ON
         [Tag (u ''h1'') [NavigableString PlainString (u ''A'')], Tag (u ''p'') [NavigableString PlainString (u ''x'')],
          NavigableString PlainString (u ''bare''), Tag (u ''h3'') [NavigableString PlainString (u ''C'')],
          Tag (u ''p'') [NavigableString PlainString (u ''y'')]])
   \<and> (u ''h3'') \<in> set (headers_to_split_on HEADERS_TO_SPLIT_ON)
   \<and> (\<exists>d. header_document HEADERS_TO_SPLIT_ON
         \<lparr>elem = Tag (u ''h1'') [NavigableString PlainString (u ''A'')],
          next_siblings = [Tag (u ''p'') [NavigableString PlainString (u ''x'')], NavigableString PlainString (u ''bare''),
                           Tag (u ''h3'') [NavigableString PlainString (u ''C'')], Tag (u ''p'') [NavigableString PlainString (u ''y'')]],
          previous_elements = []\<rparr> = Inr d
        \<and> page_content d = (u ''x''))"
proof -
  let ?soup = "[Tag (u ''h1'') [NavigableString PlainString (u ''A'')], Tag (u ''p'') [NavigableString PlainString (u ''x'')],
          NavigableString PlainString (u ''bare''), Tag (u ''h3'') [NavigableString PlainString (u ''C'')],
          Tag (u ''p'') [NavigableString PlainString (u ''y'')]]"
  let ?h = "\<lparr>elem = Tag (u ''h1'') [NavigableString PlainString (u ''A'')],
     next_siblings = [Tag (u ''p'') [NavigableString PlainString (u ''x'')], NavigableString PlainString (u ''bare''),
                      Tag (u ''h3'') [NavigableString PlainString (u ''C'')], Tag (u ''p'') [NavigableString PlainString (u ''y'')]],
     previous_elements = []\<rparr>"
  have h: "?h \<in> set (all_headers HEADERS_TO_SPLIT_ON ?soup)"
    by (simp add: segmenter_defs)
  have n: "(u ''h3'') \<in> set (headers_to_split_on HEADERS_TO_SPLIT_ON)"
    by (simp add: segmenter_defs)
  have t: "strip (content_loop []
      (takeWhile (\<lambda>s. \<not> has_name (headers_to_split_on HEADERS_TO_SPLIT_ON) s)
        (find_next_siblings ?h))) = (u ''x'')"
    by (simp add: segmenter_defs)
  from located_header_content[OF h] obtain d where
    "header_document HEADERS_TO_SPLIT_ON ?h = Inr d"
    "page_content d = strip (content_loop []
      (takeWhile (\<lambda>s. \<not> has_name (headers_to_split_on HEADERS_TO_SPLIT_ON) s)
        (find_next_siblings ?h)))" by blast
  with t have "\<exists>d. header_document HEADERS_TO_SPLIT_ON ?h = Inr d \<and> page_content d = (u ''x'')"
    by simp
  with h n show ?thesis by (intro conjI)
qed

text \<open>
  C5. A header whose next sibling element is again a header still gets its chunk: the
  text is the empty string and the metadata is the single entry of that first header.
\<close>

theorem empty_header_chunk:
  assumes "all_headers hts soup = hs" and "i < length hs"
    and "find_next_siblings (hs ! i) = Tag n cs # siblings"
    and "n \<in> set (headers_to_split_on hts)"
  shows "\<exists>pre ds label. split_text_from_file hts soup = Inr (pre @ ds)
      \<and> length pre \<le> 1 \<and> (\<forall>d\<in>set pre. metadata d = Map.empty)
      \<and> length ds = length hs
      \<and> ds ! i = \<lparr>page_content = [], metadata = [label \<mapsto> get_text (elem (hs ! i))]\<rparr>
      \<and> header_document hts (hs ! i) = Inr (ds ! i)
      \<and> metadata (ds ! i) \<noteq> Map.empty"
proof -
  let ?ds = "map (\<lambda>h. projr (header_document hts h)) hs"
  from split_structure[of hts soup] assms(1) obtain pre where
    s: "split_text_from_file hts soup = Inr (pre @ ?ds)"
    and p: "length pre \<le> 1" "\<forall>d\<in>set pre. metadata d = Map.empty" by blast
  from assms(1,2) have "hs ! i \<in> set (all_headers hts soup)" by simp
  from header_chunk[OF this] assms(3,4) obtain label where
    d: "header_document hts (hs ! i) =
      Inr \<lparr>page_content = [], metadata = [label \<mapsto> get_text (elem (hs ! i))]\<rparr>"
    by (auto simp: texts_def)
  with assms(2) have "?ds ! i = \<lparr>page_content = [], metadata = [label \<mapsto> get_text (elem (hs ! i))]\<rparr>"
    "header_document hts (hs ! i) = Inr (?ds ! i)" "metadata (?ds ! i) \<noteq> Map.empty"
    by simp_all
  moreover have "length ?ds = length hs" by simp
  ultimately show ?thesis using s p by blast
qed

theorem empty_header_chunk_witness:
  "all_headers HEADERS_TO_SPLIT_ON
      [Tag (u ''h1'') [NavigableString PlainString (u ''A'')], Tag (u ''h2'') [NavigableString PlainString (u ''B'')]]
     = [\<lparr>elem = Tag (u ''h1'') [NavigableString PlainString (u ''A'')],
         next_siblings = [Tag (u ''h2'') [NavigableString PlainString (u ''B'')]], previous_elements = []\<rparr>,
        \<lparr>elem = Tag (u ''h2'') [NavigableString PlainString (u ''B'')], next_siblings = [],
         previous_elements = [NavigableString PlainString (u ''A''), Tag (u ''h1'') [NavigableString PlainString (u ''A'')]]\<rparr>]
   \<and> split_text_from_file HEADERS_TO_SPLIT_ON
        [Tag (u ''h1'') [NavigableString PlainString (u ''A'')], Tag (u ''h2'') [NavigableString PlainString (u ''B'')]]
      = Inr [\<lparr>page_content = [], metadata = [(u ''Header 1'') \<mapsto> (u ''A'')]\<rparr>,
             \<lparr>page_content = [], metadata = [(u ''Header 2'') \<mapsto> (u ''B'')]\<rparr>]
   \<and> (\<exists>pre ds label. split_text_from_file HEADERS_TO_SPLIT_ON
        [Tag (u ''h1'') [NavigableString PlainString (u ''A'')], Tag (u ''h2'') [NavigableString PlainString (u ''B'')]] = Inr (pre @ ds)
      \<and> length ds = 2
      \<and> ds ! 0 = \<lparr>page_content = [], metadata = [label \<mapsto> (u ''A'')]\<rparr>)"
proof -
  let ?soup = "[Tag (u ''h1'') [NavigableString PlainString (u ''A'')], Tag (u ''h2'') [NavigableString PlainString (u ''B'')]]"
  let ?hs = "[\<lparr>elem = Tag (u ''h1'') [NavigableString PlainString (u ''A'')],
         next_siblings = [Tag (u ''h2'') [NavigableString PlainString (u ''B'')]], previous_elements = []\<rparr>,
        \<lparr>elem = Tag (u ''h2'') [NavigableString PlainString (u ''B'')], next_siblings = [],
         previous_elements = [NavigableString PlainString (u ''A''), Tag (u ''h1'') [NavigableString PlainString (u ''A'')]]\<rparr>]"
  have h: "all_headers HEADERS_TO_SPLIT_ON ?soup = ?hs" by (simp add: segmenter_defs)
  have i: "0 < length ?hs" by simp
  have f: "find_next_siblings (?hs ! 0) = Tag (u ''h2'') [NavigableString PlainString (u ''B'')] # []"
    by (simp add: segmenter_defs)
  have n: "(u ''h2'') \<in> set (headers_to_split_on HEADERS_TO_SPLIT_ON)"
    by (simp add: segmenter_defs)
  have s: "split_text_from_file HEADERS_TO_SPLIT_ON ?soup
      = Inr [\<lparr>page_content = [], metadata = [(u ''Header 1'') \<mapsto> (u ''A'')]\<rparr>,
             \<lparr>page_content = [], metadata = [(u ''Header 2'') \<mapsto> (u ''B'')]\<rparr>]"
    by (simp add: segmenter_defs)
  have g: "get_text (elem (?hs ! 0)) = (u ''A'')" by (simp add: segmenter_defs)
  from empty_header_chunk[OF h i f n] obtain pre ds label where
    a: "split_text_from_file HEADERS_TO_SPLIT_ON ?soup = Inr (pre @ ds)"
    and c: "length ds = length ?hs"
    and d: "ds ! 0 = \<lparr>page_content = [], metadata = [label \<mapsto> get_text (elem (?hs ! 0))]\<rparr>"
    by blast
  from c have c': "length ds = 2" by simp
  from d g have d': "ds ! 0 = \<lparr>page_content = [], metadata = [label \<mapsto> (u ''A'')]\<rparr>"
    by (simp only:)
  from a c' d'
  have "\<exists>pre ds label. split_text_from_file HEADERS_TO_SPLIT_ON ?soup = Inr (pre @ ds)
      \<and> length ds = 2
      \<and> ds ! 0 = \<lparr>page_content = [], metadata = [label \<mapsto> (u ''A'')]\<rparr>"
    by (intro exI[of _ pre] exI[of _ ds] exI[of _ label] conjI)
  with h s show ?thesis by (intro conjI)
qed

text \<open>
  C6. For every document the output is at most one chunk with empty metadata followed by
  the chunks of the headers, one for each header and in the order in which the headers
  occur in the document; the chunks of the headers have non-empty metadata.
\<close>

theorem chunk_order:
  "\<exists>pre ds. split_text_from_file hts soup = Inr (pre @ ds)
     \<and> length pre \<le> 1 \<and> (\<forall>d\<in>set pre. metadata d = Map.empty)
     \<and> map Inr ds = map (header_document hts) (all_headers hts soup)
     \<and> (\<forall>d\<in>set ds. metadata d \<noteq> Map.empty)
     \<and> map elem (all_headers hts soup) =
          filter (has_name (headers_to_split_on hts))
            (case soup_body soup of
               Some body \<Rightarrow> descendants (elem body)
             | None \<Rightarrow> subtrees soup)"
proof -
  let ?ds = "map (\<lambda>h. projr (header_document hts h)) (all_headers hts soup)"
  from split_structure[of hts soup] obtain pre where
    s: "split_text_from_file hts soup = Inr (pre @ ?ds)"
    and p: "length pre \<le> 1" "\<forall>d\<in>set pre. metadata d = Map.empty" by blast
  have e: "map Inr ?ds = map (header_document hts) (all_headers hts soup)"
    using all_headers_document[of hts soup] by auto
  have n: "\<forall>d\<in>set ?ds. metadata d \<noteq> Map.empty"
  proof
    fix d assume "d \<in> set ?ds"
    then obtain h where h: "h \<in> set (all_headers hts soup)"
      and d: "d = projr (header_document hts h)" by auto
    from header_chunk[OF h] d obtain label where
      "metadata d = [label \<mapsto> get_text (elem h)]" by auto
    then show "metadata d \<noteq> Map.empty" by simp
  qed
  from s p e n all_headers_elems[of hts soup] show ?thesis by blast
qed

theorem chunk_order_witness:
  "\<exists>pre ds. split_text_from_file HEADERS_TO_SPLIT_ON
        [Tag (u ''p'') [NavigableString PlainString (u ''intro'')], Tag (u ''h2'') [NavigableString PlainString (u ''B'')],
         Tag (u ''h1'') [NavigableString PlainString (u ''A'')]] = Inr (pre @ ds)
     \<and> length pre \<le> 1
     \<and> map Inr ds = map (header_document HEADERS_TO_SPLIT_ON)
          (all_headers HEADERS_TO_SPLIT_ON
            [Tag (u ''p'') [NavigableString PlainString (u ''intro'')], Tag (u ''h2'') [NavigableString PlainString (u ''B'')],
             Tag (u ''h1'') [NavigableString PlainString (u ''A'')]])
     \<and> map elem (all_headers HEADERS_TO_SPLIT_ON
            [Tag (u ''p'') [NavigableString PlainString (u ''intro'')], Tag (u ''h2'') [NavigableString PlainString (u ''B'')],
             Tag (u ''h1'') [NavigableString PlainString (u ''A'')]])
        = [Tag (u ''h2'') [NavigableString PlainString (u ''B'')], Tag (u ''h1'') [NavigableString PlainString (u ''A'')]]"
proof -
  let ?soup = "[Tag (u ''p'') [NavigableString PlainString (u ''intro'')], Tag (u ''h2'') [NavigableString PlainString (u ''B'')],
         Tag (u ''h1'') [NavigableString PlainString (u ''A'')]]"
  have b: "soup_body ?soup = None" by (simp add: segmenter_defs)
  have f: "filter (has_name (headers_to_split_on HEADERS_TO_SPLIT_ON)) (subtrees ?soup)
      = [Tag (u ''h2'') [NavigableString PlainString (u ''B'')], Tag (u ''h1'') [NavigableString PlainString (u ''A'')]]"
    by (simp add: segmenter_defs)
  from chunk_order[of HEADERS_TO_SPLIT_ON ?soup] obtain pre ds where
    a: "split_text_from_file HEADERS_TO_SPLIT_ON ?soup = Inr (pre @ ds)"
    and c: "length pre \<le> 1"
    and d: "map Inr ds = map (header_document HEADERS_TO_SPLIT_ON)
          (all_headers HEADERS_TO_SPLIT_ON ?soup)"
    and e: "map elem (all_headers HEADERS_TO_SPLIT_ON ?soup) =
          filter (has_name (headers_to_split_on HEADERS_TO_SPLIT_ON))
            (case soup_body ?soup of
               Some body \<Rightarrow> descendants (elem body)
             | None \<Rightarrow> subtrees ?soup)" by blast
  from e have e': "map elem (all_headers HEADERS_TO_SPLIT_ON ?soup)
      = [Tag (u ''h2'') [NavigableString PlainString (u ''B'')], Tag (u ''h1'') [NavigableString PlainString (u ''A'')]]"
    unfolding b option.case f .
  from a c d e' show ?thesis by (intro exI[of _ pre] exI[of _ ds] conjI)
qed

text \<open>
  C8. The backward walk from a located header visits every tag that starts before it in
  the document, the enclosing body tag among them, and takes the whole text of each. So
  there is a document whose pre-header chunk contains text that comes after the first
  header and is also the text of a later chunk: with a body tag around
  \<^verbatim>\<open><p>intro</p><h1>A</h1><p>body</p>\<close> the pre-header text is
  \<^verbatim>\<open>intro A body intro\<close>.
\<close>

theorem pre_header_walk_reaches_later_text:
  "(\<forall>h\<in>set (all_headers hts soup). \<exists>es1 es2.
        soup_elements soup = es1 @ h # es2
      \<and> find_all_previous h = rev (filter is_Tag (map elem es1))
      \<and> (\<forall>body. soup_body soup = Some body \<longrightarrow> elem body \<in> set (find_all_previous h)))
   \<and> (\<exists>doc first_header rest pre later after.
          all_headers HEADERS_TO_SPLIT_ON doc = first_header # rest
        \<and> split_text_from_file HEADERS_TO_SPLIT_ON doc = Inr (pre # later)
        \<and> metadata pre = Map.empty
        \<and> after \<in> set (next_siblings first_header)
        \<and> get_text after \<noteq> []
        \<and> (\<exists>a b. page_content pre = a @ get_text after @ b)
        \<and> (\<exists>d\<in>set later. page_content d = get_text after))"
proof
  show "\<forall>h\<in>set (all_headers hts soup). \<exists>es1 es2.
        soup_elements soup = es1 @ h # es2
      \<and> find_all_previous h = rev (filter is_Tag (map elem es1))
      \<and> (\<forall>body. soup_body soup = Some body \<longrightarrow> elem body \<in> set (find_all_previous h))"
  proof
    fix h assume "h \<in> set (all_headers hts soup)"
    from all_headers_in_soup[OF this] obtain es1 es2 where
      e: "soup_elements soup = es1 @ h # es2"
      and b: "\<forall>body. soup_body soup = Some body \<longrightarrow> body \<in> set es1" by blast
    note p = find_all_previous_in_soup[OF e]
    have "\<forall>body. soup_body soup = Some body \<longrightarrow> elem body \<in> set (find_all_previous h)"
    proof (intro allI impI)
      fix body assume s: "soup_body soup = Some body"
      with b have "body \<in> set es1" by simp
      moreover from soup_body_in_soup[OF s] have "is_Tag (elem body)" by simp
      ultimately show "elem body \<in> set (find_all_previous h)" by (simp add: p)
    qed
    with e p show "\<exists>es1 es2.
        soup_elements soup = es1 @ h # es2
      \<and> find_all_previous h = rev (filter is_Tag (map elem es1))
      \<and> (\<forall>body. soup_body soup = Some body \<longrightarrow> elem body \<in> set (find_all_previous h))"
      by (intro exI[of _ es1] exI[of _ es2] conjI)
  qed
next
  let ?body = "[Tag (u ''p'') [NavigableString PlainString (u ''intro'')], Tag (u ''h1'') [NavigableString PlainString (u ''A'')],
                Tag (u ''p'') [NavigableString PlainString (u ''body'')]]"
  let ?doc = "[Tag (u ''body'') ?body]"
  let ?first = "\<lparr>elem = Tag (u ''h1'') [NavigableString PlainString (u ''A'')],
       next_siblings = [Tag (u ''p'') [NavigableString PlainString (u ''body'')]],
       previous_elements = [NavigableString PlainString (u ''intro''), Tag (u ''p'') [NavigableString PlainString (u ''intro'')],
                            Tag (u ''body'') ?body]\<rparr>"
  let ?pre = "\<lparr>page_content = (u ''intro A body intro''), metadata = Map.empty\<rparr>"
  let ?later = "[\<lparr>page_content = (u ''body''), metadata = [(u ''Header 1'') \<mapsto> (u ''A'')]\<rparr>]"
  let ?after = "Tag (u ''p'') [NavigableString PlainString (u ''body'')]"
  have 1: "all_headers HEADERS_TO_SPLIT_ON ?doc = ?first # []"
    by (simp add: segmenter_defs)
  have 2: "split_text_from_file HEADERS_TO_SPLIT_ON ?doc = Inr (?pre # ?later)"
    by (simp add: segmenter_defs)
  have 3: "metadata ?pre = Map.empty" by simp
  have 4: "?after \<in> set (next_siblings ?first)" by simp
  have g: "get_text ?after = (u ''body'')" by (simp add: segmenter_defs)
  then have 5: "get_text ?after \<noteq> []" by simp
  have "page_content ?pre = (u ''intro A '') @ get_text ?after @ (u '' intro'')" unfolding g by simp
  then have 6: "\<exists>a b. page_content ?pre = a @ get_text ?after @ b" by blast
  have 7: "\<exists>d\<in>set ?later. page_content d = get_text ?after" unfolding g by simp
  from 1 2 3 4 5 6 7
  have c: "all_headers HEADERS_TO_SPLIT_ON ?doc = ?first # []
        \<and> split_text_from_file HEADERS_TO_SPLIT_ON ?doc = Inr (?pre # ?later)
        \<and> metadata ?pre = Map.empty
        \<and> ?after \<in> set (next_siblings ?first)
        \<and> get_text ?after \<noteq> []
        \<and> (\<exists>a b. page_content ?pre = a @ get_text ?after @ b)
        \<and> (\<exists>d\<in>set ?later. page_content d = get_text ?after)"
    by (intro conjI)
  show "\<exists>doc first_header rest pre later after.
          all_headers HEADERS_TO_SPLIT_ON doc = first_header # rest
        \<and> split_text_from_file HEADERS_TO_SPLIT_ON doc = Inr (pre # later)
        \<and> metadata pre = Map.empty
        \<and> after \<in> set (next_siblings first_header)
        \<and> get_text after \<noteq> []
        \<and> (\<exists>a b. page_content pre = a @ get_text after @ b)
        \<and> (\<exists>d\<in>set later. page_content d = get_text after)"
    apply (rule exI[of _ ?doc])
    apply (rule exI[of _ ?first])
    apply (rule exI[of _ "[]"])
    apply (rule exI[of _ ?pre])
    apply (rule exI[of _ ?later])
    apply (rule exI[of _ ?after])
    apply (rule c)
    done
qed

theorem pre_header_walk_reaches_later_text_witness:
  "all_headers HEADERS_TO_SPLIT_ON
      [Tag (u ''body'') [Tag (u ''p'') [NavigableString PlainString (u ''intro'')], Tag (u ''h1'') [NavigableString PlainString (u ''A'')],
                     Tag (u ''p'') [NavigableString PlainString (u ''body'')]]]
     = [\<lparr>elem = Tag (u ''h1'') [NavigableString PlainString (u ''A'')],
         next_siblings = [Tag (u ''p'') [NavigableString PlainString (u ''body'')]],
         previous_elements = [NavigableString PlainString (u ''intro''), Tag (u ''p'') [NavigableString PlainString (u ''intro'')],
            Tag (u ''body'') [Tag (u ''p'') [NavigableString PlainString (u ''intro'')], Tag (u ''h1'') [NavigableString PlainString (u ''A'')],
                          Tag (u ''p'') [NavigableString PlainString (u ''body'')]]]\<rparr>]
   \<and> Tag (u ''body'') [Tag (u ''p'') [NavigableString PlainString (u ''intro'')], Tag (u ''h1'') [NavigableString PlainString (u ''A'')],
                    Tag (u ''p'') [NavigableString PlainString (u ''body'')]]
      \<in> set (find_all_previous
          \<lparr>elem = Tag (u ''h1'') [NavigableString PlainString (u ''A'')],
           next_siblings = [Tag (u ''p'') [NavigableString PlainString (u ''body'')]],
           previous_elements = [NavigableString PlainString (u ''intro''), Tag (u ''p'') [NavigableString PlainString (u ''intro'')],
            Tag (u ''body'') [Tag (u ''p'') [NavigableString PlainString (u ''intro'')], Tag (u ''h1'') [NavigableString PlainString (u ''A'')],
                          Tag (u ''p'') [NavigableString PlainString (u ''body'')]]]\<rparr>)
   \<and> split_text_from_file HEADERS_TO_SPLIT_ON
        [Tag (u ''body'') [Tag (u ''p'') [NavigableString PlainString (u ''intro'')], Tag (u ''h1'') [NavigableString PlainString (u ''A'')],
                       Tag (u ''p'') [NavigableString PlainString (u ''body'')]]]
      = Inr [\<lparr>page_content = (u ''intro A body intro''), metadata = Map.empty\<rparr>,
             \<lparr>page_content = (u ''body''), metadata = [(u ''Header 1'') \<mapsto> (u ''A'')]\<rparr>]"
proof -
  let ?body = "[Tag (u ''p'') [NavigableString PlainString (u ''intro'')], Tag (u ''h1'') [NavigableString PlainString (u ''A'')],
                Tag (u ''p'') [NavigableString PlainString (u ''body'')]]"
  let ?doc = "[Tag (u ''body'') ?body]"
  let ?first = "\<lparr>elem = Tag (u ''h1'') [NavigableString PlainString (u ''A'')],
       next_siblings = [Tag (u ''p'') [NavigableString PlainString (u ''body'')]],
       previous_elements = [NavigableString PlainString (u ''intro''), Tag (u ''p'') [NavigableString PlainString (u ''intro'')],
                            Tag (u ''body'') ?body]\<rparr>"
  let ?b = "\<lparr>elem = Tag (u ''body'') ?body, next_siblings = [], previous_elements = []\<rparr>"
  have 1: "all_headers HEADERS_TO_SPLIT_ON ?doc = [?first]"
    by (simp add: segmenter_defs)
  have b: "soup_body ?doc = Some ?b"
    by (simp add: segmenter_defs)
  have 2: "split_text_from_file HEADERS_TO_SPLIT_ON ?doc
      = Inr [\<lparr>page_content = (u ''intro A body intro''), metadata = Map.empty\<rparr>,
             \<lparr>page_content = (u ''body''), metadata = [(u ''Header 1'') \<mapsto> (u ''A'')]\<rparr>]"
    by (simp add: segmenter_defs)
  from 1 have "?first \<in> set (all_headers HEADERS_TO_SPLIT_ON ?doc)" by simp
  with pre_header_walk_reaches_later_text[of HEADERS_TO_SPLIT_ON ?doc]
  have "\<exists>es1 es2. soup_elements ?doc = es1 @ ?first # es2
      \<and> find_all_previous ?first = rev (filter is_Tag (map elem es1))
      \<and> (\<forall>body. soup_body ?doc = Some body \<longrightarrow> elem body \<in> set (find_all_previous ?first))"
    by blast
  then have "\<forall>body. soup_body ?doc = Some body \<longrightarrow> elem body \<in> set (find_all_previous ?first)"
    by blast
  with b have "elem ?b \<in> set (find_all_previous ?first)" by blast
  then have 3: "Tag (u ''body'') ?body \<in> set (find_all_previous ?first)" by simp
  from 1 3 2 show ?thesis by (intro conjI)
qed

text \<open>
  C9, as the code has it. The text of a header's chunk is the texts, joined with single
  spaces, of the tags among the header's following siblings up to the next header tag; a
  text node among these siblings adds nothing to the chunk of that header: the chunk is
  the same when the text nodes are removed from the siblings.
\<close>

theorem text_node_siblings_skipped:
  assumes "h \<in> set (all_headers hts soup)"
  shows "\<exists>pre ds d. split_text_from_file hts soup = Inr (pre @ ds)
      \<and> length pre \<le> 1
      \<and> d \<in> set ds
      \<and> header_document hts h = Inr d
      \<and> page_content d =
          join (u '' '') (texts (takeWhile (\<lambda>s. \<not> has_name (headers_to_split_on hts) s)
                               (filter is_Tag (next_siblings h))))
      \<and> header_document hts (h\<lparr>next_siblings := filter is_Tag (next_siblings h)\<rparr>) = Inr d"
proof -
  let ?ds = "map (\<lambda>h. projr (header_document hts h)) (all_headers hts soup)"
  from split_structure[of hts soup] obtain pre where
    s: "split_text_from_file hts soup = Inr (pre @ ?ds)" and p: "length pre \<le> 1" by blast
  from header_chunk[OF assms] obtain n cs label where
    e: "elem h = Tag n cs" and l: "header_mapping hts n = Some label"
    and d: "header_document hts h =
         Inr \<lparr>page_content =
            join (u '' '') (texts (content_elements (headers_to_split_on hts) (find_next_siblings h))),
          metadata = [label \<mapsto> get_text (elem h)]\<rparr>" by blast
  let ?d = "\<lparr>page_content =
            join (u '' '') (texts (content_elements (headers_to_split_on hts) (find_next_siblings h))),
          metadata = [label \<mapsto> get_text (elem h)]\<rparr>"
  from assms d have m: "?d \<in> set ?ds" by force
  have c: "content_elements (headers_to_split_on hts) (find_next_siblings h)
      = takeWhile (\<lambda>s. \<not> has_name (headers_to_split_on hts) s) (filter is_Tag (next_siblings h))"
    by (simp add: content_elements_takeWhile find_next_siblings_def)
  then have t: "page_content ?d =
          join (u '' '') (texts (takeWhile (\<lambda>s. \<not> has_name (headers_to_split_on hts) s)
                               (filter is_Tag (next_siblings h))))" by simp
  let ?h' = "h\<lparr>next_siblings := filter is_Tag (next_siblings h)\<rparr>"
  have "elem ?h' = Tag n cs" using e by simp
  from header_document_Tag[OF this l]
  have r: "header_document hts ?h' = Inr ?d" by (simp add: find_next_siblings_def)
  from s p m d t r show ?thesis
    by (intro exI[of _ pre] exI[of _ ?ds] exI[of _ ?d] conjI)
qed

theorem text_node_siblings_skipped_witness:
  "\<lparr>elem = Tag (u ''h1'') [NavigableString PlainString (u ''A'')],
     next_siblings = [NavigableString PlainString (u ''bare''), Tag (u ''p'') [NavigableString PlainString (u ''x'')],
                      Tag (u ''h2'') [NavigableString PlainString (u ''B'')]],
     previous_elements = []\<rparr>
    \<in> set (all_headers HEADERS_TO_SPLIT_ON
         [Tag (u ''h1'') [NavigableString PlainString (u ''A'')], NavigableString PlainString (u ''bare''),
          Tag (u ''p'') [NavigableString PlainString (u ''x'')], Tag (u ''h2'') [NavigableString PlainString (u ''B'')]])
   \<and> split_text_from_file HEADERS_TO_SPLIT_ON
         [Tag (u ''h1'') [NavigableString PlainString (u ''A'')], NavigableString PlainString (u ''bare''),
          Tag (u ''p'') [NavigableString PlainString (u ''x'')], Tag (u ''h2'') [NavigableString PlainString (u ''B'')]]
      = Inr [\<lparr>page_content = (u ''x''), metadata = [(u ''Header 1'') \<mapsto> (u ''A'')]\<rparr>,
             \<lparr>page_content = [], metadata = [(u ''Header 2'') \<mapsto> (u ''B'')]\<rparr>]
   \<and> (\<exists>d. header_document HEADERS_TO_SPLIT_ON
         \<lparr>elem = Tag (u ''h1'') [NavigableString PlainString (u ''A'')],
          next_siblings = [NavigableString PlainString (u ''bare''), Tag (u ''p'') [NavigableString PlainString (u ''x'')],
                           Tag (u ''h2'') [NavigableString PlainString (u ''B'')]],
          previous_elements = []\<rparr> = Inr d
        \<and> page_content d = (u ''x''))"
proof -
  let ?soup = "[Tag (u ''h1'') [NavigableString PlainString (u ''A'')], NavigableString PlainString (u ''bare''),
          Tag (u ''p'') [NavigableString PlainString (u ''x'')], Tag (u ''h2'') [NavigableString PlainString (u ''B'')]]"
  let ?h = "\<lparr>elem = Tag (u ''h1'') [NavigableString PlainString (u ''A'')],
     next_siblings = [NavigableString PlainString (u ''bare''), Tag (u ''p'') [NavigableString PlainString (u ''x'')],
                      Tag (u ''h2'') [NavigableString PlainString (u ''B'')]],
     previous_elements = []\<rparr>"
  have h: "?h \<in> set (all_headers HEADERS_TO_SPLIT_ON ?soup)"
    by (simp add: segmenter_defs)
  have s: "split_text_from_file HEADERS_TO_SPLIT_ON ?soup
      = Inr [\<lparr>page_content = (u ''x''), metadata = [(u ''Header 1'') \<mapsto> (u ''A'')]\<rparr>,
             \<lparr>page_content = [], metadata = [(u ''Header 2'') \<mapsto> (u ''B'')]\<rparr>]"
    by (simp add: segmenter_defs)
  have t: "join (u '' '') (texts (takeWhile (\<lambda>s. \<not> has_name (headers_to_split_on HEADERS_TO_SPLIT_ON) s)
                               (filter is_Tag (next_siblings ?h)))) = (u ''x'')"
    by (simp add: segmenter_defs)
  from text_node_siblings_skipped[OF h] obtain d where
    "header_document HEADERS_TO_SPLIT_ON ?h = Inr d"
    "page_content d =
          join (u '' '') (texts (takeWhile (\<lambda>s. \<not> has_name (headers_to_split_on HEADERS_TO_SPLIT_ON) s)
                               (filter is_Tag (next_siblings ?h))))" by blast
  with t have "\<exists>d. header_document HEADERS_TO_SPLIT_ON ?h = Inr d \<and> page_content d = (u ''x'')"
    by simp
  with h s show ?thesis by (intro conjI)
qed

text \<open>
  The statement that such a text node is in no chunk of the output fails: with a body
  tag around \<^verbatim>\<open><h1>A</h1>bare<h2>B</h2>\<close> the backward walk takes the whole
  text of the body, and the text node is part of the pre-header chunk.
\<close>

theorem text_node_sibling_in_pre_header_chunk_counterexample:
  "all_headers HEADERS_TO_SPLIT_ON
      [Tag (u ''body'') [Tag (u ''h1'') [NavigableString PlainString (u ''A'')], NavigableString PlainString (u ''bare''),
                     Tag (u ''h2'') [NavigableString PlainString (u ''B'')]]]
     = [\<lparr>elem = Tag (u ''h1'') [NavigableString PlainString (u ''A'')],
         next_siblings = [NavigableString PlainString (u ''bare''), Tag (u ''h2'') [NavigableString PlainString (u ''B'')]],
         previous_elements =
           [Tag (u ''body'') [Tag (u ''h1'') [NavigableString PlainString (u ''A'')], NavigableString PlainString (u ''bare''),
                          Tag (u ''h2'') [NavigableString PlainString (u ''B'')]]]\<rparr>,
        \<lparr>elem = Tag (u ''h2'') [NavigableString PlainString (u ''B'')],
         next_siblings = [],
         previous_elements =
           [NavigableString PlainString (u ''bare''), NavigableString PlainString (u ''A''), Tag (u ''h1'') [NavigableString PlainString (u ''A'')],
            Tag (u ''body'') [Tag (u ''h1'') [NavigableString PlainString (u ''A'')], NavigableString PlainString (u ''bare''),
                          Tag (u ''h2'') [NavigableString PlainString (u ''B'')]]]\<rparr>]
   \<and> split_text_from_file HEADERS_TO_SPLIT_ON
        [Tag (u ''body'') [Tag (u ''h1'') [NavigableString PlainString (u ''A'')], NavigableString PlainString (u ''bare''),
                       Tag (u ''h2'') [NavigableString PlainString (u ''B'')]]]
      = Inr [\<lparr>page_content = (u ''A bare B''), metadata = Map.empty\<rparr>,
             \<lparr>page_content = [], metadata = [(u ''Header 1'') \<mapsto> (u ''A'')]\<rparr>,
             \<lparr>page_content = [], metadata = [(u ''Header 2'') \<mapsto> (u ''B'')]\<rparr>]"
  by (simp add: segmenter_defs)

text \<open>
  C10. \<^verbatim>\<open>split_html\<close> catches what its body raises: after a
  \<^verbatim>\<open>FileNotFoundError\<close> or any other instance of \<^verbatim>\<open>Exception\<close> it logs one
  error and returns normally, and it returns normally when the body ends without an
  exception; so it returns normally whenever everything raised is an instance of
  \<^verbatim>\<open>Exception\<close>. A missing input file gives the single error record and a normal
  return.
\<close>

theorem split_html_catches_exceptions:
  "(split_html_try w a = (t, Inr ()) \<longrightarrow> split_html w a = (t, Returned))
   \<and> (split_html_try w a = (t, Inl FileNotFoundError) \<longrightarrow>
        split_html w a = (t @ [Log_error ((u ''File not found: '') @ file_path a)], Returned))
   \<and> (split_html_try w a = (t, Inl (OtherException msg)) \<longrightarrow>
        split_html w a = (t @ [Log_error ((u ''An error occurred: '') @ msg)], Returned))
   \<and> ((\<forall>e. snd (split_html_try w a) = Inl e \<longrightarrow> isinstance_Exception e) \<longrightarrow>
        snd (split_html w a) = Returned)
   \<and> (read_text w (file_path a) = Inl FileNotFoundError \<longrightarrow>
        split_html w a = ([Log_error ((u ''File not found: '') @ file_path a)], Returned))"
proof (intro conjI impI)
  assume "split_html_try w a = (t, Inr ())"
  then show "split_html w a = (t, Returned)" by (simp add: split_html_def)
next
  assume "split_html_try w a = (t, Inl FileNotFoundError)"
  then show "split_html w a = (t @ [Log_error ((u ''File not found: '') @ file_path a)], Returned)"
    by (simp add: split_html_def)
next
  assume "split_html_try w a = (t, Inl (OtherException msg))"
  then show "split_html w a = (t @ [Log_error ((u ''An error occurred: '') @ msg)], Returned)"
    by (simp add: split_html_def)
next
  assume "\<forall>e. snd (split_html_try w a) = Inl e \<longrightarrow> isinstance_Exception e"
  with split_html_Returned_or_not_Exception[of w a]
  show "snd (split_html w a) = Returned" by blast
next
  assume "read_text w (file_path a) = Inl FileNotFoundError"
  then have "split_html_try w a = ([], Inl FileNotFoundError)"
    by (simp add: split_html_try_def)
  then show "split_html w a = ([Log_error ((u ''File not found: '') @ file_path a)], Returned)"
    by (simp add: split_html_def)
qed

theorem split_html_catches_exceptions_witness:
  "split_html
      \<lparr>read_text = (\<lambda>path. Inl FileNotFoundError), html_parser = (\<lambda>markup. []),
       find_section = (\<lambda>markup tag cls. None), pickle_dump = (\<lambda>path splits. Inr ()),
       write_text = (\<lambda>path s. Inr ()), rich_print = (\<lambda>s. Inr ()),
       rich_print_metadata = (\<lambda>m. Inr ()), user_input = (\<lambda>k. Inr []),
       str_metadata = (\<lambda>m. [])\<rparr>
      \<lparr>file_path = u ''missing.html'', output_pkl = u ''out.pkl'', output_txt = u ''out.txt'',
       interactive = False, target_tag = None, target_class = None,
       drop_empty_metadata = True\<rparr>
    = ([Log_error (u ''File not found: missing.html'')], Returned)
   \<and> split_html
      \<lparr>read_text = (\<lambda>path. Inr (u ''<h1>A</h1>'')),
       html_parser = (\<lambda>markup. [Tag (u ''h1'') [NavigableString PlainString (u ''A'')]]),
       find_section = (\<lambda>markup tag cls. None),
       pickle_dump = (\<lambda>path splits. Inl (OtherException (u ''disk full''))),
       write_text = (\<lambda>path s. Inr ()), rich_print = (\<lambda>s. Inr ()),
       rich_print_metadata = (\<lambda>m. Inr ()), user_input = (\<lambda>k. Inr []),
       str_metadata = (\<lambda>m. [])\<rparr>
      \<lparr>file_path = u ''page.html'', output_pkl = u ''out.pkl'', output_txt = u ''out.txt'',
       interactive = False, target_tag = None, target_class = None,
       drop_empty_metadata = True\<rparr>
    = ([Log_info (u ''No specific target specified; processing full HTML content.''),
        Log_error (u ''An error occurred: disk full'')], Returned)
   \<and> split_html
      \<lparr>read_text = (\<lambda>path. Inr (u ''<h1>A</h1><p>[/b]</p>'')),
       html_parser = (\<lambda>markup. [Tag (u ''h1'') [NavigableString PlainString (u ''A'')],
                                 Tag (u ''p'') [NavigableString PlainString (u ''[/b]'')]]),
       find_section = (\<lambda>markup tag cls. None),
       pickle_dump = (\<lambda>path splits. Inr ()),
       write_text = (\<lambda>path s. Inr ()),
       rich_print = (\<lambda>s. if s = u ''[/b]'' then Inl (OtherException (u ''MarkupError''))
                          else Inr ()),
       rich_print_metadata = (\<lambda>m. Inr ()), user_input = (\<lambda>k. Inr []),
       str_metadata = (\<lambda>m. [])\<rparr>
      \<lparr>file_path = u ''page.html'', output_pkl = u ''out.pkl'', output_txt = u ''out.txt'',
       interactive = True, target_tag = None, target_class = None,
       drop_empty_metadata = True\<rparr>
    = ([Log_info (u ''No specific target specified; processing full HTML content.''),
        Cleared_screen, Printed (u ''=====''),
        Printed_metadata [u ''Header 1'' \<mapsto> u ''A''],
        Log_error (u ''An error occurred: MarkupError'')], Returned)"
proof -
  let ?w1 = "\<lparr>read_text = (\<lambda>path. Inl FileNotFoundError), html_parser = (\<lambda>markup. []),
       find_section = (\<lambda>markup tag cls. None), pickle_dump = (\<lambda>path splits. Inr ()),
       write_text = (\<lambda>path s. Inr ()), rich_print = (\<lambda>s. Inr ()),
       rich_print_metadata = (\<lambda>m. Inr ()), user_input = (\<lambda>k. Inr []),
       str_metadata = (\<lambda>m. [])\<rparr>"
  let ?a1 = "\<lparr>file_path = u ''missing.html'', output_pkl = u ''out.pkl'',
       output_txt = u ''out.txt'',
       interactive = False, target_tag = None, target_class = None,
       drop_empty_metadata = True\<rparr>"
  let ?w2 = "\<lparr>read_text = (\<lambda>path. Inr (u ''<h1>A</h1>'')),
       html_parser = (\<lambda>markup. [Tag (u ''h1'') [NavigableString PlainString (u ''A'')]]),
       find_section = (\<lambda>markup tag cls. None),
       pickle_dump = (\<lambda>path splits. Inl (OtherException (u ''disk full''))),
       write_text = (\<lambda>path s. Inr ()), rich_print = (\<lambda>s. Inr ()),
       rich_print_metadata = (\<lambda>m. Inr ()), user_input = (\<lambda>k. Inr []),
       str_metadata = (\<lambda>m. [])\<rparr>"
  let ?a2 = "\<lparr>file_path = u ''page.html'', output_pkl = u ''out.pkl'',
       output_txt = u ''out.txt'',
       interactive = False, target_tag = None, target_class = None,
       drop_empty_metadata = True\<rparr>"
  let ?w3 = "\<lparr>read_text = (\<lambda>path. Inr (u ''<h1>A</h1><p>[/b]</p>'')),
       html_parser = (\<lambda>markup. [Tag (u ''h1'') [NavigableString PlainString (u ''A'')],
                                 Tag (u ''p'') [NavigableString PlainString (u ''[/b]'')]]),
       find_section = (\<lambda>markup tag cls. None),
       pickle_dump = (\<lambda>path splits. Inr ()),
       write_text = (\<lambda>path s. Inr ()),
       rich_print = (\<lambda>s. if s = u ''[/b]'' then Inl (OtherException (u ''MarkupError''))
                          else Inr ()),
       rich_print_metadata = (\<lambda>m. Inr ()), user_input = (\<lambda>k. Inr []),
       str_metadata = (\<lambda>m. [])\<rparr>"
  let ?a3 = "\<lparr>file_path = u ''page.html'', output_pkl = u ''out.pkl'',
       output_txt = u ''out.txt'',
       interactive = True, target_tag = None, target_class = None,
       drop_empty_metadata = True\<rparr>"
  have r: "read_text ?w1 (file_path ?a1) = Inl FileNotFoundError" by simp
  from split_html_catches_exceptions[of ?w1 ?a1] r
  have 1: "split_html ?w1 ?a1 = ([Log_error (u ''File not found: '' @ file_path ?a1)], Returned)"
    by blast
  have t2: "split_html_try ?w2 ?a2
      = ([Log_info (u ''No specific target specified; processing full HTML content.'')],
         Inl (OtherException (u ''disk full'')))"
    by (simp add: pipeline_defs segmenter_defs)
  from split_html_catches_exceptions[of ?w2 ?a2
      "[Log_info (u ''No specific target specified; processing full HTML content.'')]"
      "u ''disk full''"] t2
  have 2: "split_html ?w2 ?a2
      = ([Log_info (u ''No specific target specified; processing full HTML content.'')]
           @ [Log_error (u ''An error occurred: '' @ u ''disk full'')], Returned)"
    by blast
  have t3: "split_html_try ?w3 ?a3
      = ([Log_info (u ''No specific target specified; processing full HTML content.''),
          Cleared_screen, Printed (u ''=====''),
          Printed_metadata [u ''Header 1'' \<mapsto> u ''A'']],
         Inl (OtherException (u ''MarkupError'')))"
    by (simp add: pipeline_defs segmenter_defs lower_def)
  from split_html_catches_exceptions[of ?w3 ?a3
      "[Log_info (u ''No specific target specified; processing full HTML content.''),
          Cleared_screen, Printed (u ''=====''),
          Printed_metadata [u ''Header 1'' \<mapsto> u ''A'']]"
      "u ''MarkupError''"] t3
  have 3: "split_html ?w3 ?a3
      = ([Log_info (u ''No specific target specified; processing full HTML content.''),
          Cleared_screen, Printed (u ''=====''),
          Printed_metadata [u ''Header 1'' \<mapsto> u ''A'']]
           @ [Log_error (u ''An error occurred: '' @ u ''MarkupError'')], Returned)"
    by blast
  from 1 2 3 show ?thesis by simp
qed

end
